theory Spec2Isabelle
  imports Main "HOL-Library.Finite_Map" "HOL-Library.Char_ord" "HOL-Library.List_Lexorder"
begin

section \<open>JavaScript values\<close>

text \<open>
  The diff utilities of \<^verbatim>\<open>diffUtils.ts\<close> take arbitrary JavaScript values. The values of
  the model are the plain data the code is written for: \<^verbatim>\<open>undefined\<close>, \<^verbatim>\<open>null\<close>, booleans,
  numbers (integers, and \<^verbatim>\<open>NaN\<close> apart, the one number that is not \<^verbatim>\<open>===\<close> to itself),
  strings, arrays and plain objects, whose prototype is \<^verbatim>\<open>Object.prototype\<close>; and the
  functions that a plain object inherits from its prototype, each by its name. Instances
  of other classes (\<^verbatim>\<open>Date\<close>, \<^verbatim>\<open>Map\<close>, ...) are not values of the model.

  An object is the finite map of its own enumerable properties: two objects are compared
  by their properties, not by the order of these. Holes of sparse arrays read as
  \<^verbatim>\<open>undefined\<close>.
\<close>

datatype val = VUndefined | VNull | VBool bool | VNum int | VNaN | VStr string
  | VFunction string | VArr "val list" | VObj "(string, val) fmap"

datatype jstype = TUndefined | TObject | TBoolean | TNumber | TString | TFunction

fun typeof :: "val \<Rightarrow> jstype" where
  "typeof VUndefined = TUndefined"
| "typeof VNull = TObject"
| "typeof (VBool _) = TBoolean"
| "typeof (VNum _) = TNumber"
| "typeof VNaN = TNumber"
| "typeof (VStr _) = TString"
| "typeof (VFunction _) = TFunction"
| "typeof (VArr _) = TObject"
| "typeof (VObj _) = TObject"

text \<open>\<^verbatim>\<open>!v\<close>: the falsy values.\<close>

fun falsy :: "val \<Rightarrow> bool" where
  "falsy VUndefined = True"
| "falsy VNull = True"
| "falsy (VBool b) = (\<not> b)"
| "falsy (VNum n) = (n = 0)"
| "falsy VNaN = True"
| "falsy (VStr s) = (s = [])"
| "falsy (VFunction _) = False"
| "falsy (VArr _) = False"
| "falsy (VObj _) = False"

fun isArray :: "val \<Rightarrow> bool" where
  "isArray (VArr _) = True"
| "isArray _ = False"

text \<open>
  \<^verbatim>\<open>a === b\<close>. Primitives are compared by value, the functions of the prototype by their
  name. Arrays and objects are compared by reference, which a value does not carry: the
  relation \<open>sameRef\<close> says which arrays and objects are the same reference. Theorems that
  need it assume only that one reference has one content (\<open>sameRef a b \<longrightarrow> a = b\<close>); equal
  contents may or may not be the same reference.
\<close>

fun strictEq :: "(val \<Rightarrow> val \<Rightarrow> bool) \<Rightarrow> val \<Rightarrow> val \<Rightarrow> bool" where
  "strictEq sameRef VUndefined VUndefined = True"
| "strictEq sameRef VNull VNull = True"
| "strictEq sameRef (VBool a) (VBool b) = (a = b)"
| "strictEq sameRef (VNum a) (VNum b) = (a = b)"
| "strictEq sameRef (VStr a) (VStr b) = (a = b)"
| "strictEq sameRef (VFunction a) (VFunction b) = (a = b)"
| "strictEq sameRef (VArr a) (VArr b) = sameRef (VArr a) (VArr b)"
| "strictEq sameRef (VObj a) (VObj b) = sameRef (VObj a) (VObj b)"
| "strictEq sameRef _ _ = False"

section \<open>Properties inherited from \<^verbatim>\<open>Object.prototype\<close>\<close>

text \<open>
  The operator \<^verbatim>\<open>in\<close> and a property read follow the prototype chain. A plain object,
  and so every object that \<^verbatim>\<open>{ ...obj }\<close> makes, inherits the properties of
  \<^verbatim>\<open>Object.prototype\<close>. None of them is enumerable: a \<^verbatim>\<open>for ... in\<close> loop,
  \<^verbatim>\<open>Object.keys\<close>, \<^verbatim>\<open>Object.entries\<close> and a spread see the own properties only.
\<close>

definition objectPrototypeKeys :: "string list" where
  "objectPrototypeKeys =
     [''constructor'', ''__defineGetter__'', ''__defineSetter__'', ''hasOwnProperty'',
      ''__lookupGetter__'', ''__lookupSetter__'', ''isPrototypeOf'', ''propertyIsEnumerable'',
      ''toString'', ''valueOf'', ''__proto__'', ''toLocaleString'']"

text \<open>
  The value read through an object that has no own property of that name: a function, or
  for the accessor \<^verbatim>\<open>__proto__\<close> the prototype itself, an object without enumerable
  properties.

  An assignment \<^verbatim>\<open>obj['__proto__'] = v\<close> to an object without an own property of that
  name makes no property: it replaces the prototype. The model does not follow that: it
  takes every assignment as one that makes or updates an own property. The statements
  below are about objects and diffs without a key \<^verbatim>\<open>__proto__\<close>.
\<close>

definition inheritedValue :: "string \<Rightarrow> val" where
  "inheritedValue key = (if key = ''__proto__'' then VObj fmempty else VFunction key)"

text \<open>\<^verbatim>\<open>key in obj\<close> and \<^verbatim>\<open>obj[key]\<close>, for an object with the own properties \<open>obj\<close>.\<close>

definition hasProperty :: "(string, val) fmap \<Rightarrow> string \<Rightarrow> bool" where
  "hasProperty obj key = (key |\<in>| fmdom obj \<or> key \<in> set objectPrototypeKeys)"

definition getProperty :: "(string, val) fmap \<Rightarrow> string \<Rightarrow> val" where
  "getProperty obj key =
     (case fmlookup obj key of
        Some v \<Rightarrow> v
      | None \<Rightarrow> if key \<in> set objectPrototypeKeys then inheritedValue key else VUndefined)"

section \<open>Diffs (\<^verbatim>\<open>types.ts\<close>)\<close>

text \<open>
  An item of an \<^verbatim>\<open>ArrayDiff\<close>: \<^verbatim>\<open>{ index, value?, removed?, added? }\<close>. A missing
  \<^verbatim>\<open>value\<close> is \<^verbatim>\<open>undefined\<close>, and the code tests the flags for truthiness only, so a
  missing flag is \<open>False\<close>.
\<close>

record item =
  item_index :: nat
  item_value :: val
  item_added :: bool
  item_removed :: bool

text \<open>
  \<^verbatim>\<open>Diff = ObjectDiff | ArrayDiff | ValueDiff\<close>. The fields of \<open>ObjectDiff\<close> are
  \<^verbatim>\<open>changed\<close>, \<^verbatim>\<open>added\<close> and \<^verbatim>\<open>deleted\<close>; those of \<open>ValueDiff\<close> are \<^verbatim>\<open>before\<close> and
  \<^verbatim>\<open>after\<close>.
\<close>

datatype diff =
    ObjectDiff "(string, diff) fmap" "(string, val) fmap" "string list"
  | ArrayDiff "item list"
  | ValueDiff val val

text \<open>
  \<^verbatim>\<open>Object.keys\<close>, the own property names. The code lists them in the order of insertion,
  which a finite map does not have: they come sorted here, so that a list of keys made by
  the code (\<^verbatim>\<open>deleted\<close>) may be in another order than in the model. The values that the
  functions below compute from such a list, and the statements about them, do not depend
  on its order.
\<close>

definition objectKeys :: "(string, 'a) fmap \<Rightarrow> string list" where
  "objectKeys m = sorted_list_of_fset (fmdom m)"

text \<open>The properties that were assigned: the entries whose value is \<open>Some\<close>.\<close>

definition fmsomes :: "('k, 'a option) fmap \<Rightarrow> ('k, 'a) fmap" where
  "fmsomes m = fmmap the (fmfilter (\<lambda>k. fmlookup m k \<noteq> Some None) m)"

lemma fmmap_keys_cong [fundef_cong]:
  "m = n \<Longrightarrow> (\<And>k v. fmlookup n k = Some v \<Longrightarrow> f k v = g k v) \<Longrightarrow> fmmap_keys f m = fmmap_keys g n"
  by (rule fmap_ext) (auto simp: map_option_case split: option.splits)

lemma fmlookup_size_less [termination_simp]:
  assumes "fmlookup m k = Some v"
  shows "f v < Suc (\<Sum>x\<in>fset (fset_of_fmap m). Suc (case x of (a, x) \<Rightarrow> f x))"
proof -
  have "(k, v) \<in> fset (fset_of_fmap m)"
    using assms by simp
  then have "(case (k, v) of (a, x) \<Rightarrow> Suc (f x))
      \<le> (\<Sum>x\<in>fset (fset_of_fmap m). (case x of (a, x) \<Rightarrow> Suc (f x)))"
    by (intro member_le_sum) auto
  then show ?thesis
    by (simp add: case_prod_beta)
qed

section \<open>Creating a diff (\<^verbatim>\<open>createDiff\<close>, \<^verbatim>\<open>createArrayDiff\<close>, \<^verbatim>\<open>createObjectDiff\<close>)\<close>

text \<open>
  The \<^verbatim>\<open>for\<close> loop of \<^verbatim>\<open>createArrayDiff\<close>, with its variables \<^verbatim>\<open>i\<close>, \<^verbatim>\<open>items\<close> and
  \<^verbatim>\<open>hasChanges\<close>.
\<close>

function createArrayLoop ::
  "(val \<Rightarrow> val \<Rightarrow> bool) \<Rightarrow> val list \<Rightarrow> val list \<Rightarrow> nat \<Rightarrow> nat \<Rightarrow> item list \<Rightarrow> bool
    \<Rightarrow> item list \<times> bool" where
  "createArrayLoop sameRef oldArray newArray maxLen i items hasChanges =
     (if i < maxLen then
        (if i \<ge> length oldArray then
           createArrayLoop sameRef oldArray newArray maxLen (i + 1)
             (items @ [\<lparr>item_index = i, item_value = newArray ! i,
                        item_added = True, item_removed = False\<rparr>]) True
         else if i \<ge> length newArray then
           createArrayLoop sameRef oldArray newArray maxLen (i + 1)
             (items @ [\<lparr>item_index = i, item_value = oldArray ! i,
                        item_added = False, item_removed = True\<rparr>]) True
         else if \<not> strictEq sameRef (oldArray ! i) (newArray ! i) then
           createArrayLoop sameRef oldArray newArray maxLen (i + 1)
             (items @ [\<lparr>item_index = i, item_value = newArray ! i,
                        item_added = False, item_removed = False\<rparr>]) True
         else createArrayLoop sameRef oldArray newArray maxLen (i + 1) items hasChanges)
      else (items, hasChanges))"
  by pat_completeness auto
termination
  by (relation "measure (\<lambda>(sameRef, oldArray, newArray, maxLen, i, items, hasChanges). maxLen - i)")
    auto

declare createArrayLoop.simps [simp del]

definition createArrayDiff :: "(val \<Rightarrow> val \<Rightarrow> bool) \<Rightarrow> val list \<Rightarrow> val list \<Rightarrow> diff option" where
  "createArrayDiff sameRef oldArray newArray =
     (let maxLen = max (length oldArray) (length newArray);
          (items, hasChanges) = createArrayLoop sameRef oldArray newArray maxLen 0 [] False
      in if hasChanges then Some (ArrayDiff items) else None)"

text \<open>
  \<^verbatim>\<open>createDiff\<close> returns \<^verbatim>\<open>null\<close> (\<open>None\<close>) or a diff. \<^verbatim>\<open>createObjectDiff\<close> is only called
  with two objects that are not arrays. Its first loop runs over the own properties of
  \<^verbatim>\<open>oldObj\<close>: a key for which \<^verbatim>\<open>key in newObj\<close> is false is pushed to \<^verbatim>\<open>deleted\<close>;
  otherwise \<^verbatim>\<open>newObj[key]\<close>, own or inherited, is compared with the old value, and when
  the two are not \<^verbatim>\<open>===\<close> their diff is stored in \<^verbatim>\<open>changed\<close> unless it is \<^verbatim>\<open>null\<close>. The
  second loop copies to \<^verbatim>\<open>added\<close> the own properties of \<^verbatim>\<open>newObj\<close> whose key is not
  \<^verbatim>\<open>in oldObj\<close>.
\<close>

fun createDiff :: "(val \<Rightarrow> val \<Rightarrow> bool) \<Rightarrow> val \<Rightarrow> val \<Rightarrow> diff option"
and createObjectDiff :: "(val \<Rightarrow> val \<Rightarrow> bool) \<Rightarrow> val \<Rightarrow> val \<Rightarrow> diff option" where
  "createDiff sameRef oldValue newValue =
     (if strictEq sameRef oldValue newValue then None
      else if falsy oldValue \<or> falsy newValue
              \<or> typeof oldValue \<noteq> TObject \<or> typeof newValue \<noteq> TObject
              \<or> isArray oldValue \<noteq> isArray newValue
        then Some (ValueDiff oldValue newValue)
      else (case oldValue of
              VArr oldArray \<Rightarrow>
                (case newValue of
                   VArr newArray \<Rightarrow> createArrayDiff sameRef oldArray newArray
                 | _ \<Rightarrow> None)
            | _ \<Rightarrow> createObjectDiff sameRef oldValue newValue))"
| "createObjectDiff sameRef (VObj oldObj) (VObj newObj) =
     (let changed = fmsomes (fmmap_keys (\<lambda>key oldv.
                       if \<not> hasProperty newObj key then None
                       else if \<not> strictEq sameRef (getProperty newObj key) oldv
                         then createDiff sameRef oldv (getProperty newObj key)
                       else None) oldObj);
          deleted = filter (\<lambda>key. \<not> hasProperty newObj key) (objectKeys oldObj);
          added = fmfilter (\<lambda>key. \<not> hasProperty oldObj key) newObj
      in if changed = fmempty \<and> added = fmempty \<and> deleted = [] then None
         else Some (ObjectDiff changed added deleted))"
| "createObjectDiff sameRef _ _ = None"

declare createDiff.simps createObjectDiff.simps(1) [simp del]

section \<open>Applying a diff (\<^verbatim>\<open>applyDiff\<close>, \<^verbatim>\<open>applyArrayDiff\<close>, \<^verbatim>\<open>applyObjectDiff\<close>)\<close>

text \<open>
  \<^verbatim>\<open>result.splice(i, 1)\<close>, \<^verbatim>\<open>result.splice(i, 0, v)\<close> (a start beyond the end is the
  end) and \<^verbatim>\<open>result[i] = v\<close> (an index beyond the end extends the array, the gap reading
  as \<^verbatim>\<open>undefined\<close>).
\<close>

definition spliceRemove :: "nat \<Rightarrow> 'a list \<Rightarrow> 'a list" where
  "spliceRemove i xs = take i xs @ drop (Suc i) xs"

definition spliceInsert :: "nat \<Rightarrow> 'a \<Rightarrow> 'a list \<Rightarrow> 'a list" where
  "spliceInsert i v xs = take i xs @ [v] @ drop i xs"

definition assignIndex :: "nat \<Rightarrow> val \<Rightarrow> val list \<Rightarrow> val list" where
  "assignIndex i v xs =
     (if i < length xs then xs[i := v]
      else xs @ replicate (i - length xs) VUndefined @ [v])"

text \<open>
  The removals are sorted by descending index (\<^verbatim>\<open>sort((a, b) => b.index - a.index)\<close>, a
  stable sort) and spliced out first; then every item is visited in the order of the diff,
  \<open>applyItem\<close> being the body of that second loop.
\<close>

definition applyItem :: "item \<Rightarrow> val list \<Rightarrow> val list" where
  "applyItem it result =
     (if item_added it then spliceInsert (item_index it) (item_value it) result
      else if \<not> item_removed it \<and> item_value it \<noteq> VUndefined
        then assignIndex (item_index it) (item_value it) result
      else result)"

definition applyArrayDiff :: "val list \<Rightarrow> item list \<Rightarrow> val list" where
  "applyArrayDiff arr items =
     (let result = arr;
          removals = sort_key (\<lambda>it. - int (item_index it)) (filter item_removed items);
          result = fold (\<lambda>it res. spliceRemove (item_index it) res) removals result;
          result = fold applyItem items result
      in result)"

text \<open>The decimal name of an array index, as a property name.\<close>

function showNat :: "nat \<Rightarrow> string" where
  "showNat n = (if n < 10 then [''0123456789'' ! n]
                else showNat (n div 10) @ [''0123456789'' ! (n mod 10)])"
  by pat_completeness auto
termination
  by (relation "measure id") auto

declare showNat.simps [simp del]

text \<open>
  \<^verbatim>\<open>{ ...obj }\<close>: the own properties of the value that \<^verbatim>\<open>applyDiff\<close> hands to
  \<^verbatim>\<open>applyObjectDiff\<close>. Spreading an array gives its elements under their indices.
\<close>

definition arrayEntries :: "val list \<Rightarrow> (string, val) fmap" where
  "arrayEntries xs = fmap_of_list (map (\<lambda>i. (showNat i, xs ! i)) [0..<length xs])"

fun ownProperties :: "val \<Rightarrow> (string, val) fmap" where
  "ownProperties (VObj obj) = obj"
| "ownProperties (VArr xs) = arrayEntries xs"
| "ownProperties _ = fmempty"

text \<open>
  \<^verbatim>\<open>applyDiff\<close> tests \<^verbatim>\<open>diff.type\<close> and the value in turn, and falls back to the value
  itself. \<^verbatim>\<open>applyObjectDiff\<close> visits the entries of \<^verbatim>\<open>changed\<close>: \<^verbatim>\<open>if (key in result)\<close>, it
  assigns to \<^verbatim>\<open>result[key]\<close> the child diff applied to \<^verbatim>\<open>result[key]\<close>, which is the own
  value or the inherited one. Then it assigns the \<^verbatim>\<open>added\<close> properties, then deletes the
  \<^verbatim>\<open>deleted\<close> ones.
\<close>

fun applyDiff :: "val \<Rightarrow> diff \<Rightarrow> val"
and applyObjectDiff :: "(string, val) fmap \<Rightarrow> diff \<Rightarrow> (string, val) fmap" where
  "applyDiff v (ValueDiff beforeV afterV) = afterV"
| "applyDiff v (ArrayDiff items) =
     (case v of VArr arr \<Rightarrow> VArr (applyArrayDiff arr items) | _ \<Rightarrow> v)"
| "applyDiff v (ObjectDiff changed added deleted) =
     (if v \<noteq> VNull \<and> typeof v = TObject
      then VObj (applyObjectDiff (ownProperties v) (ObjectDiff changed added deleted))
      else v)"
| "applyObjectDiff obj (ObjectDiff changed added deleted) =
     (let result = obj;
          result = fmadd result (fmsomes (fmmap_keys (\<lambda>key childDiff.
                     if hasProperty result key
                     then Some (applyDiff (getProperty result key) childDiff)
                     else None) changed));
          result = fmadd result added;
          result = fold fmdrop deleted result
      in result)"
| "applyObjectDiff obj _ = obj"

text \<open>
  Whether \<^verbatim>\<open>applyDiff(v, diff)\<close> reaches its last statement, the \<^verbatim>\<open>console.warn\<close> before
  \<^verbatim>\<open>return value\<close>.
\<close>

fun applyDiffWarns :: "val \<Rightarrow> diff \<Rightarrow> bool" where
  "applyDiffWarns v (ValueDiff beforeV afterV) = False"
| "applyDiffWarns v (ArrayDiff items) = (\<not> isArray v)"
| "applyDiffWarns v (ObjectDiff changed added deleted) = (\<not> (v \<noteq> VNull \<and> typeof v = TObject))"

section \<open>Reversing a diff (\<^verbatim>\<open>reverseDiff\<close>)\<close>

definition reverseItem :: "item \<Rightarrow> item" where
  "reverseItem it = \<lparr>item_index = item_index it, item_value = item_value it,
                     item_added = item_removed it, item_removed = item_added it\<rparr>"

fun reverseDiff :: "diff \<Rightarrow> diff" where
  "reverseDiff (ValueDiff beforeV afterV) = ValueDiff afterV beforeV"
| "reverseDiff (ArrayDiff items) = ArrayDiff (map reverseItem items)"
| "reverseDiff (ObjectDiff changed added deleted) =
     ObjectDiff (fmmap reverseDiff changed)
                (fold (\<lambda>key obj. fmupd key VUndefined obj) deleted fmempty)
                (objectKeys added)"

section \<open>The history manager (\<^verbatim>\<open>historyManager.ts\<close>)\<close>

text \<open>
  The field \<^verbatim>\<open>diff: unknown\<close> of a history entry. \<open>Typed d\<close> is a \<^verbatim>\<open>Diff\<close> object, as
  \<^verbatim>\<open>createDiff\<close> returns it. \<open>Opaque v\<close> is any other value (the previous value stored by
  \<^verbatim>\<open>useFullValueInstead\<close>, or the result of a custom diff function): it is not an object
  with a \<^verbatim>\<open>type\<close> property, or its \<^verbatim>\<open>type\<close> is none of \<^verbatim>\<open>'value'\<close>, \<^verbatim>\<open>'array'\<close> and
  \<^verbatim>\<open>'object'\<close>.
\<close>

datatype stored = Typed diff | Opaque val

text \<open>
  \<^verbatim>\<open>HistoryEntry { id, diff, timestamp, fullValue? }\<close>; a missing \<^verbatim>\<open>fullValue\<close> is
  \<^verbatim>\<open>undefined\<close>, which is what the code tests for.
\<close>

record HistoryEntry =
  entry_id :: string
  entry_diff :: stored
  timestamp :: int
  fullValue :: val

record HistoryStack =
  past :: "HistoryEntry list"
  future :: "HistoryEntry list"

text \<open>
  An atom made by \<^verbatim>\<open>atomWithHistory(initialValue, options)\<close>: its \<^verbatim>\<open>id\<close>, the base atom
  that holds its value, and the options its setter closes over. A missing
  \<^verbatim>\<open>shouldTrack\<close> is \<^verbatim>\<open>(prev, next) => prev !== next\<close>. The function \<^verbatim>\<open>shouldTrack\<close> is the
  caller's, and may throw: it returns \<open>None\<close> where it does. It is the one call of
  \<^verbatim>\<open>undo\<close> and \<^verbatim>\<open>redo\<close> whose exception nothing catches; \<^verbatim>\<open>customDiff\<close>, which they never
  reach, is taken to return.
\<close>

record AtomWithHistory =
  atom_id :: string
  baseAtom :: nat
  historyLimit :: "int option"
  shouldTrack :: "(val \<Rightarrow> val \<Rightarrow> bool option) option"
  customDiff :: "(val \<Rightarrow> val \<Rightarrow> stored) option"
  useFullValueInstead :: bool

text \<open>
  The state of the module: the atoms of \<^verbatim>\<open>historyStore\<close> that the history manager
  declares, the registry \<^verbatim>\<open>atomRegistry\<close> (a \<^verbatim>\<open>Map\<close> from ids to atoms) and the values of
  the base atoms.
\<close>

record store =
  historyStackAtom :: HistoryStack
  isHistoryOperationInProgressAtom :: bool
  currentGroupOperationAtom :: "HistoryEntry list option"
  isGroupOperationInProgressAtom :: bool
  atomRegistry :: "string \<rightharpoonup> AtomWithHistory"
  baseValues :: "nat \<Rightarrow> val"

definition DEFAULT_HISTORY_LIMIT :: int where
  "DEFAULT_HISTORY_LIMIT = 50"

definition registerHistoryAtom :: "AtomWithHistory \<Rightarrow> store \<Rightarrow> store" where
  "registerHistoryAtom a s = s\<lparr>atomRegistry := (atomRegistry s)(atom_id a \<mapsto> a)\<rparr>"

definition unregisterHistoryAtom :: "AtomWithHistory \<Rightarrow> store \<Rightarrow> store" where
  "unregisterHistoryAtom a s = s\<lparr>atomRegistry := (atomRegistry s)(atom_id a := None)\<rparr>"

definition getAtomById :: "store \<Rightarrow> string \<Rightarrow> AtomWithHistory option" where
  "getAtomById s i = atomRegistry s i"

text \<open>The options of \<^verbatim>\<open>pushToHistory\<close>; a missing \<^verbatim>\<open>useFullValueInstead\<close> is falsy.\<close>

record pushOptions =
  opt_historyLimit :: "int option"
  opt_useFullValueInstead :: bool
  opt_customDiff :: "(val \<Rightarrow> val \<Rightarrow> stored) option"

text \<open>\<^verbatim>\<open>options?.historyLimit || DEFAULT_HISTORY_LIMIT\<close>: the limit \<open>0\<close> is falsy.\<close>

definition effectiveLimit :: "int option \<Rightarrow> int" where
  "effectiveLimit lim =
     (case lim of
        None \<Rightarrow> DEFAULT_HISTORY_LIMIT
      | Some n \<Rightarrow> if n = 0 then DEFAULT_HISTORY_LIMIT else n)"

fun isComplexDiff :: "diff \<Rightarrow> bool" where
  "isComplexDiff (ObjectDiff changed added deleted) = (fcard (fmdom changed) > 10)"
| "isComplexDiff (ArrayDiff items) = (length items > 20)"
| "isComplexDiff (ValueDiff beforeV afterV) = False"

text \<open>
  The first part of \<^verbatim>\<open>pushToHistory\<close>: \<^verbatim>\<open>entryData\<close>, the pair of \<^verbatim>\<open>diff\<close> and
  \<^verbatim>\<open>fullValue\<close>, or \<open>None\<close> where the function returns because \<^verbatim>\<open>createDiff\<close> found no
  change.
\<close>

definition entryData ::
  "(val \<Rightarrow> val \<Rightarrow> bool) \<Rightarrow> val \<Rightarrow> val \<Rightarrow> pushOptions \<Rightarrow> (stored \<times> val) option" where
  "entryData sameRef prevValue nextValue options =
     (if opt_useFullValueInstead options then Some (Opaque prevValue, prevValue)
      else case opt_customDiff options of
        Some f \<Rightarrow> Some (f prevValue nextValue, VUndefined)
      | None \<Rightarrow>
         (case createDiff sameRef prevValue nextValue of
            None \<Rightarrow> None
          | Some d \<Rightarrow> Some (Typed d, if isComplexDiff d then prevValue else VUndefined)))"

definition newEntry :: "int \<Rightarrow> string \<Rightarrow> stored \<times> val \<Rightarrow> HistoryEntry" where
  "newEntry now i ed = \<lparr>entry_id = i, entry_diff = fst ed, timestamp = now, fullValue = snd ed\<rparr>"

text \<open>
  \<^verbatim>\<open>pushToHistory(id, prevValue, nextValue, options)\<close>; \<open>now\<close> is \<^verbatim>\<open>Date.now()\<close>. An
  array, also the empty one, is truthy: the entry goes to the group whenever
  \<^verbatim>\<open>currentGroupOperationAtom\<close> is not \<^verbatim>\<open>null\<close>.
\<close>

definition pushToHistory ::
  "(val \<Rightarrow> val \<Rightarrow> bool) \<Rightarrow> int \<Rightarrow> string \<Rightarrow> val \<Rightarrow> val \<Rightarrow> pushOptions \<Rightarrow> store \<Rightarrow> store" where
  "pushToHistory sameRef now i prevValue nextValue options s =
     (let historyLimit = effectiveLimit (opt_historyLimit options) in
      case entryData sameRef prevValue nextValue options of
        None \<Rightarrow> s
      | Some ed \<Rightarrow>
         (let entry = newEntry now i ed in
          case currentGroupOperationAtom s of
            Some groupEntries \<Rightarrow> s\<lparr>currentGroupOperationAtom := Some (groupEntries @ [entry])\<rparr>
          | None \<Rightarrow>
             (let currentStack = historyStackAtom s;
                  newPast = past currentStack @ [entry];
                  newPast = (if int (length newPast) > historyLimit then tl newPast else newPast)
              in s\<lparr>historyStackAtom := \<lparr>past = newPast, future = []\<rparr>\<rparr>)))"

definition startGroupOperation :: "store \<Rightarrow> store" where
  "startGroupOperation s =
     s\<lparr>isGroupOperationInProgressAtom := True, currentGroupOperationAtom := Some []\<rparr>"

definition endGroupOperation :: "store \<Rightarrow> store" where
  "endGroupOperation s =
     (let s1 = (case currentGroupOperationAtom s of
                  Some groupEntries \<Rightarrow>
                    if length groupEntries > 0
                    then s\<lparr>historyStackAtom :=
                            \<lparr>past = past (historyStackAtom s) @ groupEntries, future = []\<rparr>\<rparr>
                    else s
                | None \<Rightarrow> s)
      in s1\<lparr>isGroupOperationInProgressAtom := False, currentGroupOperationAtom := None\<rparr>)"

section \<open>Returning and throwing\<close>

text \<open>
  A call that writes to the store either returns or throws, and leaves a store in both
  cases. \<open>andThen\<close> is the sequence of two statements, the second of which does not run
  when the first throws; \<open>tryFinally\<close> is \<^verbatim>\<open>try { ... } finally { ... }\<close>, whose second
  block runs on both exits and keeps the exit of the first.
\<close>

datatype outcome = Returns store | Throws store

fun storeOf :: "outcome \<Rightarrow> store" where
  "storeOf (Returns s) = s"
| "storeOf (Throws s) = s"

fun throws :: "outcome \<Rightarrow> bool" where
  "throws (Returns s) = False"
| "throws (Throws s) = True"

fun andThen :: "outcome \<Rightarrow> (store \<Rightarrow> outcome) \<Rightarrow> outcome" where
  "andThen (Returns s) f = f s"
| "andThen (Throws s) f = Throws s"

fun tryFinally :: "outcome \<Rightarrow> (store \<Rightarrow> store) \<Rightarrow> outcome" where
  "tryFinally (Returns s) f = Returns (f s)"
| "tryFinally (Throws s) f = Throws (f s)"

section \<open>Atoms with history (\<^verbatim>\<open>atomWithHistory.ts\<close>)\<close>

text \<open>
  The setter of the atom, which \<^verbatim>\<open>historyStore.set(atom, update)\<close> runs: it calls
  \<^verbatim>\<open>shouldTrack\<close>, whose exception it lets through, and returns when \<^verbatim>\<open>shouldTrack\<close>
  refuses the change; it records the change unless an undo or redo is in progress, and
  writes the base atom.
\<close>

definition atomWrite ::
  "(val \<Rightarrow> val \<Rightarrow> bool) \<Rightarrow> int \<Rightarrow> AtomWithHistory \<Rightarrow> val \<Rightarrow> store \<Rightarrow> outcome" where
  "atomWrite sameRef now a update s =
     (let prevValue = baseValues s (baseAtom a);
          nextValue = update
      in case (case shouldTrack a of
                 Some f \<Rightarrow> f prevValue nextValue
               | None \<Rightarrow> Some (\<not> strictEq sameRef prevValue nextValue)) of
           None \<Rightarrow> Throws s
         | Some track \<Rightarrow>
            if \<not> track then Returns s
            else
              (let s1 = (if \<not> isHistoryOperationInProgressAtom s
                         then pushToHistory sameRef now (atom_id a) prevValue nextValue
                                \<lparr>opt_historyLimit = historyLimit a,
                                 opt_useFullValueInstead = useFullValueInstead a,
                                 opt_customDiff = customDiff a\<rparr> s
                         else s)
               in Returns (s1\<lparr>baseValues := (baseValues s1)(baseAtom a := update)\<rparr>)))"

section \<open>Undo and redo (\<^verbatim>\<open>useHistory.ts\<close>)\<close>

datatype error = InvalidDiffFormat | UnknownDiffType

text \<open>
  The guard \<^verbatim>\<open>typeof diff === 'object' && diff !== null && 'type' in diff\<close> on a value that
  is not a \<^verbatim>\<open>Diff\<close>.
\<close>

fun hasTypeField :: "val \<Rightarrow> bool" where
  "hasTypeField (VObj obj) = (''type'' |\<in>| fmdom obj)"
| "hasTypeField _ = False"

text \<open>
  The inner \<^verbatim>\<open>try\<close> block of \<^verbatim>\<open>undo\<close> and of \<^verbatim>\<open>redo\<close>. A value that fails the guard
  throws \<^verbatim>\<open>'Invalid diff format'\<close>. One that passes it with an unknown \<^verbatim>\<open>type\<close> makes
  \<^verbatim>\<open>reverseDiff\<close> throw \<^verbatim>\<open>'Unknown diff type'\<close>, while \<^verbatim>\<open>applyDiff\<close> warns and returns the
  current value.
\<close>

fun undoApply :: "stored \<Rightarrow> val \<Rightarrow> error + val" where
  "undoApply (Typed d) currentValue = Inr (applyDiff currentValue (reverseDiff d))"
| "undoApply (Opaque v) currentValue =
     (if hasTypeField v then Inl UnknownDiffType else Inl InvalidDiffFormat)"

fun redoApply :: "stored \<Rightarrow> val \<Rightarrow> error + val" where
  "redoApply (Typed d) currentValue = Inr (applyDiff currentValue d)"
| "redoApply (Opaque v) currentValue =
     (if hasTypeField v then Inr currentValue else Inl InvalidDiffFormat)"

text \<open>The fallback of the \<^verbatim>\<open>catch\<close> block: the field of a value diff, if the diff is one.\<close>

fun valueDiffBefore :: "stored \<Rightarrow> val option" where
  "valueDiffBefore (Typed (ValueDiff beforeV afterV)) = Some beforeV"
| "valueDiffBefore _ = None"

fun valueDiffAfter :: "stored \<Rightarrow> val option" where
  "valueDiffAfter (Typed (ValueDiff beforeV afterV)) = Some afterV"
| "valueDiffAfter _ = None"

text \<open>
  The value to restore: \<^verbatim>\<open>previousValue\<close> of \<^verbatim>\<open>undo\<close> and \<^verbatim>\<open>nextValue\<close> of \<^verbatim>\<open>redo\<close>, or
  \<open>None\<close> where the code logs \<^verbatim>\<open>'Cannot undo'\<close> (\<^verbatim>\<open>'Cannot redo'\<close>) and returns the
  current stack.
\<close>

definition undoValue :: "HistoryEntry \<Rightarrow> val \<Rightarrow> val option" where
  "undoValue lastEntry currentValue =
     (if fullValue lastEntry \<noteq> VUndefined then Some (fullValue lastEntry)
      else case undoApply (entry_diff lastEntry) currentValue of
             Inr previousValue \<Rightarrow> Some previousValue
           | Inl err \<Rightarrow> valueDiffBefore (entry_diff lastEntry))"

definition redoValue :: "HistoryEntry \<Rightarrow> val \<Rightarrow> val option" where
  "redoValue nextEntry currentValue =
     (if fullValue nextEntry \<noteq> VUndefined then Some (fullValue nextEntry)
      else case redoApply (entry_diff nextEntry) currentValue of
             Inr nextValue \<Rightarrow> Some nextValue
           | Inl err \<Rightarrow> valueDiffAfter (entry_diff nextEntry))"

text \<open>
  \<^verbatim>\<open>undo\<close>: the updater passed to \<^verbatim>\<open>setHistoryStack\<close>, with the writes it makes to the
  store on the way. The state \<open>s1\<close> is the one after \<^verbatim>\<open>setIsHistoryOperation(true)\<close>. In
  the \<^verbatim>\<open>try\<close> block, the updater returns the current stack where no value can be
  restored; otherwise it writes the atom and, if the write returns, returns the new
  stacks, which \<^verbatim>\<open>setHistoryStack\<close> stores. If the write throws, the updater throws, and
  the stacks stay as they are. The \<^verbatim>\<open>finally\<close> block resets the flag on both exits.
\<close>

definition undo :: "(val \<Rightarrow> val \<Rightarrow> bool) \<Rightarrow> int \<Rightarrow> store \<Rightarrow> outcome" where
  "undo sameRef now s =
     (let currentStack = historyStackAtom s in
      if length (past currentStack) = 0 then Returns s
      else
        (let lastEntry = last (past currentStack);
             newPast = butlast (past currentStack)
         in case getAtomById s (entry_id lastEntry) of
              None \<Rightarrow> Returns s
            | Some atomWithId \<Rightarrow>
               (let s1 = s\<lparr>isHistoryOperationInProgressAtom := True\<rparr> in
                tryFinally
                  (let currentValue = baseValues s1 (baseAtom atomWithId) in
                   case undoValue lastEntry currentValue of
                     None \<Rightarrow> Returns s1
                   | Some previousValue \<Rightarrow>
                      andThen (atomWrite sameRef now atomWithId previousValue s1)
                        (\<lambda>s'. Returns (s'\<lparr>historyStackAtom :=
                                     \<lparr>past = newPast,
                                      future = future currentStack @
                                        [\<lparr>entry_id = entry_id lastEntry,
                                          entry_diff = entry_diff lastEntry,
                                          timestamp = now,
                                          fullValue = fullValue lastEntry\<rparr>]\<rparr>\<rparr>)))
                  (\<lambda>s2. s2\<lparr>isHistoryOperationInProgressAtom := False\<rparr>))))"

definition redo :: "(val \<Rightarrow> val \<Rightarrow> bool) \<Rightarrow> int \<Rightarrow> store \<Rightarrow> outcome" where
  "redo sameRef now s =
     (let currentStack = historyStackAtom s in
      if length (future currentStack) = 0 then Returns s
      else
        (let nextEntry = last (future currentStack);
             newFuture = butlast (future currentStack)
         in case getAtomById s (entry_id nextEntry) of
              None \<Rightarrow> Returns s
            | Some atomWithId \<Rightarrow>
               (let s1 = s\<lparr>isHistoryOperationInProgressAtom := True\<rparr> in
                tryFinally
                  (let currentValue = baseValues s1 (baseAtom atomWithId) in
                   case redoValue nextEntry currentValue of
                     None \<Rightarrow> Returns s1
                   | Some nextValue \<Rightarrow>
                      andThen (atomWrite sameRef now atomWithId nextValue s1)
                        (\<lambda>s'. Returns (s'\<lparr>historyStackAtom :=
                                     \<lparr>past = past currentStack @
                                        [\<lparr>entry_id = entry_id nextEntry,
                                          entry_diff = entry_diff nextEntry,
                                          timestamp = now,
                                          fullValue = fullValue nextEntry\<rparr>],
                                      future = newFuture\<rparr>\<rparr>)))
                  (\<lambda>s2. s2\<lparr>isHistoryOperationInProgressAtom := False\<rparr>))))"

text \<open>
  \<^verbatim>\<open>groupOperations(callback)\<close>: the callback runs on the store after
  \<^verbatim>\<open>startGroupOperation\<close> and returns or throws; \<^verbatim>\<open>endGroupOperation\<close> runs in the
  \<^verbatim>\<open>finally\<close> block in both cases.
\<close>

definition groupOperations :: "(store \<Rightarrow> outcome) \<Rightarrow> store \<Rightarrow> outcome" where
  "groupOperations callback s = tryFinally (callback (startGroupOperation s)) endGroupOperation"

definition canUndo :: "store \<Rightarrow> bool" where
  "canUndo s = (length (past (historyStackAtom s)) > 0)"

definition canRedo :: "store \<Rightarrow> bool" where
  "canRedo s = (length (future (historyStackAtom s)) > 0)"

section \<open>Notions used in the statements\<close>

text \<open>
  The only assumption on references: two arrays or objects that are the same reference
  have the same content.
\<close>

definition soundRef :: "(val \<Rightarrow> val \<Rightarrow> bool) \<Rightarrow> bool" where
  "soundRef sameRef = (\<forall>a b. sameRef a b \<longrightarrow> a = b)"

text \<open>
  A diff that replaces no array element by \<^verbatim>\<open>undefined\<close>, at any depth of its changed
  properties: \<^verbatim>\<open>applyArrayDiff\<close> skips an item that is neither added nor removed when its
  value is \<^verbatim>\<open>undefined\<close>.
\<close>

primrec replacesDefined :: "diff \<Rightarrow> bool" where
  "replacesDefined (ValueDiff beforeV afterV) = True"
| "replacesDefined (ArrayDiff items) =
     list_all (\<lambda>it. item_added it \<or> item_removed it \<or> item_value it \<noteq> VUndefined) items"
| "replacesDefined (ObjectDiff changed added deleted) =
     fmpred (\<lambda>key ok. ok) (fmmap replacesDefined changed)"

text \<open>
  A diff that \<^verbatim>\<open>reverseDiff\<close> can undo, at any depth of its changed properties: it deletes
  no property (the diff does not keep the value of a deleted property) and replaces no
  array element (the diff does not keep the element replaced); its array items are only
  added or removed ones.
\<close>

primrec reversible :: "diff \<Rightarrow> bool" where
  "reversible (ValueDiff beforeV afterV) = True"
| "reversible (ArrayDiff items) = list_all (\<lambda>it. item_added it \<or> item_removed it) items"
| "reversible (ObjectDiff changed added deleted) =
     (deleted = [] \<and> fmpred (\<lambda>key ok. ok) (fmmap reversible changed))"

text \<open>
  An object none of whose own properties is named like a property of
  \<^verbatim>\<open>Object.prototype\<close>, and a value all of whose objects are such, the value itself and
  the ones reached through properties: on these, \<^verbatim>\<open>key in obj\<close> and \<^verbatim>\<open>obj[key]\<close> see own
  properties only. The elements of an array are free: \<^verbatim>\<open>createArrayDiff\<close> compares them by
  \<^verbatim>\<open>===\<close> and stores them whole, it never looks into them.
\<close>

definition noInheritedKey :: "(string, val) fmap \<Rightarrow> bool" where
  "noInheritedKey obj = list_all (\<lambda>key. key |\<notin>| fmdom obj) objectPrototypeKeys"

primrec noInheritedNames :: "val \<Rightarrow> bool" where
  "noInheritedNames VUndefined = True"
| "noInheritedNames VNull = True"
| "noInheritedNames (VBool b) = True"
| "noInheritedNames (VNum n) = True"
| "noInheritedNames VNaN = True"
| "noInheritedNames (VStr s) = True"
| "noInheritedNames (VFunction name) = True"
| "noInheritedNames (VArr xs) = True"
| "noInheritedNames (VObj obj) =
     (noInheritedKey obj \<and> fmpred (\<lambda>key ok. ok) (fmmap noInheritedNames obj))"

text \<open>
  The items that one turn of the loop of \<^verbatim>\<open>createArrayDiff\<close> pushes at index \<open>i\<close>, and
  their three kinds: the replaced elements of the common prefix, the added and the removed
  elements of the tail.
\<close>

definition arrayItemAt ::
  "(val \<Rightarrow> val \<Rightarrow> bool) \<Rightarrow> val list \<Rightarrow> val list \<Rightarrow> nat \<Rightarrow> item list" where
  "arrayItemAt sameRef oldArray newArray i =
     (if i \<ge> length oldArray then
        [\<lparr>item_index = i, item_value = newArray ! i, item_added = True, item_removed = False\<rparr>]
      else if i \<ge> length newArray then
        [\<lparr>item_index = i, item_value = oldArray ! i, item_added = False, item_removed = True\<rparr>]
      else if \<not> strictEq sameRef (oldArray ! i) (newArray ! i) then
        [\<lparr>item_index = i, item_value = newArray ! i, item_added = False, item_removed = False\<rparr>]
      else [])"

definition changedAt ::
  "(val \<Rightarrow> val \<Rightarrow> bool) \<Rightarrow> val list \<Rightarrow> val list \<Rightarrow> nat \<Rightarrow> item list" where
  "changedAt sameRef old new i =
     (if \<not> strictEq sameRef (old ! i) (new ! i)
      then [\<lparr>item_index = i, item_value = new ! i, item_added = False, item_removed = False\<rparr>]
      else [])"

definition addedItem :: "val list \<Rightarrow> nat \<Rightarrow> item" where
  "addedItem new i =
     \<lparr>item_index = i, item_value = new ! i, item_added = True, item_removed = False\<rparr>"

definition removedItem :: "val list \<Rightarrow> nat \<Rightarrow> item" where
  "removedItem old i =
     \<lparr>item_index = i, item_value = old ! i, item_added = False, item_removed = True\<rparr>"

text \<open>
  What the first loop of \<^verbatim>\<open>createObjectDiff\<close> stores in \<^verbatim>\<open>changed\<close> for one property,
  when both objects have it as an own property.
\<close>

definition changedEntry ::
  "(val \<Rightarrow> val \<Rightarrow> bool) \<Rightarrow> (string, val) fmap \<Rightarrow> (string, val) fmap \<Rightarrow> string
    \<Rightarrow> diff option" where
  "changedEntry sameRef oldObj newObj key =
     (case fmlookup oldObj key of
        None \<Rightarrow> None
      | Some oldv \<Rightarrow>
         (case fmlookup newObj key of
            None \<Rightarrow> None
          | Some newv \<Rightarrow>
              if \<not> strictEq sameRef newv oldv then createDiff sameRef oldv newv else None))"

section \<open>Example values and stores\<close>

text \<open>
  Concrete values and diffs: an object and a set of changed properties, one of them
  missing from the object; a changed property named \<^verbatim>\<open>toString\<close>; the empty object and
  one with an own property \<^verbatim>\<open>toString\<close>, with the diff between the two; an object whose
  property is deleted, whose array is changed in
  place and extended and which gains a property, with the diff between the two; and an
  object that only grows, with its diff.
\<close>

definition sampleObject :: "(string, val) fmap" where
  "sampleObject = fmupd ''a'' (VNum 1) fmempty"

definition sampleChanged :: "(string, diff) fmap" where
  "sampleChanged =
     fmupd ''b'' (ValueDiff (VNum 2) (VNum 3)) (fmupd ''a'' (ValueDiff (VNum 1) (VNum 7)) fmempty)"

definition inheritedChanged :: "(string, diff) fmap" where
  "inheritedChanged = fmap_of_list [(''toString'', ValueDiff (VNum 1) (VNum 7))]"

definition namedBefore :: val where
  "namedBefore = VObj fmempty"

definition namedAfter :: val where
  "namedAfter = VObj (fmap_of_list [(''a'', VNum 1), (''toString'', VNum 2)])"

definition namedDelta :: diff where
  "namedDelta = ObjectDiff fmempty (fmap_of_list [(''a'', VNum 1)]) []"

definition objectBefore :: val where
  "objectBefore = VObj (fmap_of_list [(''a'', VNum 1), (''b'', VArr [VNum 1, VNum 2, VNum 3])])"

definition objectAfter :: val where
  "objectAfter = VObj (fmap_of_list [(''b'', VArr [VNum 1, VNum 5, VNum 3, VNum 9]), (''c'', VNum 4)])"

definition objectDelta :: diff where
  "objectDelta = ObjectDiff
     (fmap_of_list [(''b'', ArrayDiff
        [\<lparr>item_index = 1, item_value = VNum 5, item_added = False, item_removed = False\<rparr>,
         \<lparr>item_index = 3, item_value = VNum 9, item_added = True, item_removed = False\<rparr>])])
     (fmap_of_list [(''c'', VNum 4)])
     [''a'']"

definition grownBefore :: val where
  "grownBefore = VObj (fmap_of_list [(''a'', VArr [VNum 1])])"

definition grownAfter :: val where
  "grownAfter = VObj (fmap_of_list [(''a'', VArr [VNum 1, VNum 2]), (''c'', VNum 4)])"

definition grownDelta :: diff where
  "grownDelta = ObjectDiff
     (fmap_of_list [(''a'', ArrayDiff
        [\<lparr>item_index = 1, item_value = VNum 2, item_added = True, item_removed = False\<rparr>])])
     (fmap_of_list [(''c'', VNum 4)])
     []"

text \<open>
  Concrete atoms, stores and calls, on which the theorems below are instantiated: three
  registered atoms \<^verbatim>\<open>a\<close>, \<^verbatim>\<open>b\<close>, \<^verbatim>\<open>c\<close> with value \<open>0\<close>, a callback that writes \<open>1\<close> to
  each, the store that the group of these writes leaves with the limit \<open>2\<close>, an atom
  whose \<^verbatim>\<open>shouldTrack\<close> throws, with a store whose entries name it, a store whose last past
  entry names an atom that is not registered, and one whose
  entries carry a value that is not a diff.
\<close>

definition mkAtom :: "string \<Rightarrow> nat \<Rightarrow> int option \<Rightarrow> AtomWithHistory" where
  "mkAtom i b lim = \<lparr>atom_id = i, baseAtom = b, historyLimit = lim, shouldTrack = None,
                     customDiff = None, useFullValueInstead = False\<rparr>"

definition emptyStore :: store where
  "emptyStore = \<lparr>historyStackAtom = \<lparr>past = [], future = []\<rparr>,
     isHistoryOperationInProgressAtom = False,
     currentGroupOperationAtom = None, isGroupOperationInProgressAtom = False,
     atomRegistry = Map.empty, baseValues = (\<lambda>_. VNum 0)\<rparr>"

definition threeAtoms :: "int option \<Rightarrow> store" where
  "threeAtoms lim = registerHistoryAtom (mkAtom ''c'' 2 lim) (registerHistoryAtom (mkAtom ''b'' 1 lim)
     (registerHistoryAtom (mkAtom ''a'' 0 lim) emptyStore))"

definition threeWrites :: "int option \<Rightarrow> store \<Rightarrow> outcome" where
  "threeWrites lim s =
     andThen (andThen (atomWrite (=) 1 (mkAtom ''a'' 0 lim) (VNum 1) s)
                (atomWrite (=) 2 (mkAtom ''b'' 1 lim) (VNum 1)))
       (atomWrite (=) 3 (mkAtom ''c'' 2 lim) (VNum 1))"

definition limit2 :: pushOptions where
  "limit2 = \<lparr>opt_historyLimit = Some 2, opt_useFullValueInstead = False, opt_customDiff = None\<rparr>"

definition overLimitStore :: store where
  "overLimitStore = storeOf (groupOperations (threeWrites (Some 2)) (threeAtoms (Some 2)))"

definition limit50 :: pushOptions where
  "limit50 = \<lparr>opt_historyLimit = Some 50, opt_useFullValueInstead = False, opt_customDiff = None\<rparr>"

definition countingCalls :: "nat \<Rightarrow> (int \<times> val \<times> val) list" where
  "countingCalls n = map (\<lambda>k. (int k, VNum (int k), VNum (int k + 1))) [0..<n]"

definition orphanEntry :: HistoryEntry where
  "orphanEntry = \<lparr>entry_id = ''gone'', entry_diff = Typed (ValueDiff (VNum 0) (VNum 1)),
                   timestamp = 1, fullValue = VUndefined\<rparr>"

definition orphanStore :: store where
  "orphanStore = emptyStore\<lparr>historyStackAtom := \<lparr>past = [orphanEntry], future = []\<rparr>\<rparr>"

definition opaqueEntry :: HistoryEntry where
  "opaqueEntry = \<lparr>entry_id = ''a'', entry_diff = Opaque (VStr ''custom''),
                   timestamp = 1, fullValue = VUndefined\<rparr>"

definition opaqueStore :: store where
  "opaqueStore = (threeAtoms None)\<lparr>historyStackAtom := \<lparr>past = [opaqueEntry], future = [opaqueEntry]\<rparr>\<rparr>"

definition throwingAtom :: AtomWithHistory where
  "throwingAtom = (mkAtom ''t'' 3 None)\<lparr>shouldTrack := Some (\<lambda>prev next. None)\<rparr>"

definition throwingEntry :: HistoryEntry where
  "throwingEntry = \<lparr>entry_id = ''t'', entry_diff = Typed (ValueDiff (VNum 0) (VNum 1)),
                     timestamp = 1, fullValue = VUndefined\<rparr>"

definition throwingStore :: store where
  "throwingStore = (registerHistoryAtom throwingAtom emptyStore)
     \<lparr>historyStackAtom := \<lparr>past = [throwingEntry], future = [throwingEntry]\<rparr>\<rparr>"

section \<open>Properties of the diff utilities\<close>

subsection \<open>Properties of an object, one by one\<close>

lemma fmlookup_fmsomes:
  "fmlookup (fmsomes m) k = (case fmlookup m k of Some (Some x) \<Rightarrow> Some x | _ \<Rightarrow> None)"
  by (auto simp: fmsomes_def split: option.splits)

lemma set_objectKeys: "set (objectKeys m) = fmdom' m"
  by (simp add: objectKeys_def fmdom'_alt_def)

lemma fmlookup_fold_fmdrop:
  "fmlookup (fold fmdrop ds m) k = (if k \<in> set ds then None else fmlookup m k)"
  by (induction ds arbitrary: m) auto

lemma fmlookup_fold_fmupd:
  "fmlookup (fold (\<lambda>key obj. fmupd key v obj) ds m) k = (if k \<in> set ds then Some v else fmlookup m k)"
  by (induction ds arbitrary: m) auto

lemma fmlookup_applyObjectDiff:
  "fmlookup (applyObjectDiff obj (ObjectDiff changed added deleted)) k =
     (if k \<in> set deleted then None
      else case fmlookup added k of
        Some v \<Rightarrow> Some v
      | None \<Rightarrow>
         (case fmlookup changed k of
            None \<Rightarrow> fmlookup obj k
          | Some childDiff \<Rightarrow>
              if hasProperty obj k then Some (applyDiff (getProperty obj k) childDiff)
              else fmlookup obj k))"
  by (auto simp: fmlookup_fold_fmdrop fmlookup_fmsomes split: option.splits)

declare applyObjectDiff.simps(1) [simp del]

lemma hasProperty_own:
  assumes "key \<notin> set objectPrototypeKeys"
  shows "hasProperty obj key = (fmlookup obj key \<noteq> None)"
    and "getProperty obj key = (case fmlookup obj key of Some v \<Rightarrow> v | None \<Rightarrow> VUndefined)"
  using assms by (auto simp: hasProperty_def getProperty_def fmlookup_dom_iff split: option.splits)

lemma noInheritedKey_None:
  assumes "noInheritedKey obj" and "key \<in> set objectPrototypeKeys"
  shows "fmlookup obj key = None"
  using assms by (auto simp: noInheritedKey_def list_all_iff fmdom_notD)

text \<open>
  On the keys that are not names of the prototype, and on those that \<^verbatim>\<open>changed\<close> does not
  have, \<^verbatim>\<open>applyObjectDiff\<close> works with own properties only.
\<close>

lemma fmlookup_applyObjectDiff_own:
  assumes "k \<in> set objectPrototypeKeys \<Longrightarrow> fmlookup changed k = None"
  shows "fmlookup (applyObjectDiff obj (ObjectDiff changed added deleted)) k =
     (if k \<in> set deleted then None
      else case fmlookup added k of
        Some v \<Rightarrow> Some v
      | None \<Rightarrow>
         (case fmlookup obj k of
            None \<Rightarrow> None
          | Some cur \<Rightarrow>
             Some (case fmlookup changed k of None \<Rightarrow> cur | Some childDiff \<Rightarrow> applyDiff cur childDiff)))"
proof (cases "k \<in> set objectPrototypeKeys")
  case True
  with assms show ?thesis
    by (simp add: fmlookup_applyObjectDiff split: option.splits)
next
  case False
  then show ?thesis
    by (simp add: fmlookup_applyObjectDiff hasProperty_own split: option.splits)
qed

text \<open>
  Claim C10 (changed keys missing from the object), as the code has it. The test of
  \<^verbatim>\<open>applyObjectDiff\<close> is \<^verbatim>\<open>key in result\<close>: a key of \<^verbatim>\<open>changed\<close> is skipped when the object
  neither has it as an own property nor inherits it from \<^verbatim>\<open>Object.prototype\<close>. Then the
  result has the key only if \<^verbatim>\<open>added\<close> has it (and \<^verbatim>\<open>deleted\<close> does not), with the value of
  \<^verbatim>\<open>added\<close>, and the whole result is the one of the diff without that changed entry. The
  diff is one without a key \<^verbatim>\<open>__proto__\<close> in \<^verbatim>\<open>changed\<close> or \<^verbatim>\<open>added\<close>: assigning to
  that key replaces the prototype of the result, in the course of the loop.
\<close>

theorem absent_changed_key_skipped:
  assumes "key |\<in>| fmdom changed" and "\<not> hasProperty obj key"
      and "''__proto__'' |\<notin>| fmdom changed" and "''__proto__'' |\<notin>| fmdom added"
  shows "fmlookup (applyObjectDiff obj (ObjectDiff changed added deleted)) key
           = (if key \<in> set deleted then None else fmlookup added key)
         \<and> (key |\<notin>| fmdom added \<longrightarrow>
              key |\<notin>| fmdom (applyObjectDiff obj (ObjectDiff changed added deleted)))
         \<and> applyDiff (VObj obj) (ObjectDiff changed added deleted)
             = applyDiff (VObj obj) (ObjectDiff (fmdrop key changed) added deleted)"
proof -
  from assms(2) have none: "fmlookup obj key = None"
    by (simp add: hasProperty_def fmdom_notD)
  have 1: "fmlookup (applyObjectDiff obj (ObjectDiff changed added deleted)) key
           = (if key \<in> set deleted then None else fmlookup added key)"
    using assms(2) by (simp add: fmlookup_applyObjectDiff none split: option.splits)
  have 2: "key |\<notin>| fmdom added \<longrightarrow>
              key |\<notin>| fmdom (applyObjectDiff obj (ObjectDiff changed added deleted))"
    using 1 by (auto simp: fmlookup_dom_iff)
  have "applyObjectDiff obj (ObjectDiff changed added deleted)
      = applyObjectDiff obj (ObjectDiff (fmdrop key changed) added deleted)"
  proof (intro fmap_ext)
    fix k
    show "fmlookup (applyObjectDiff obj (ObjectDiff changed added deleted)) k
        = fmlookup (applyObjectDiff obj (ObjectDiff (fmdrop key changed) added deleted)) k"
      using none assms(2)
      by (cases "k = key") (simp_all only: fmlookup_applyObjectDiff, auto split: option.splits)
  qed
  then have 3: "applyDiff (VObj obj) (ObjectDiff changed added deleted)
             = applyDiff (VObj obj) (ObjectDiff (fmdrop key changed) added deleted)"
    by simp
  from 1 2 3 show ?thesis by blast
qed

theorem absent_changed_key_skipped_witness:
  "''b'' |\<in>| fmdom sampleChanged \<and> \<not> hasProperty sampleObject ''b''
   \<and> ''__proto__'' |\<notin>| fmdom sampleChanged
   \<and> ''__proto__'' |\<notin>| fmdom (fmempty :: (string, val) fmap)
   \<and> fmlookup (applyObjectDiff sampleObject (ObjectDiff sampleChanged fmempty [])) ''b'' = None
   \<and> applyDiff (VObj sampleObject) (ObjectDiff sampleChanged fmempty [])
       = VObj (fmupd ''a'' (VNum 7) fmempty)"
proof -
  have c: "''b'' |\<in>| fmdom sampleChanged" by (simp add: sampleChanged_def)
  have o: "\<not> hasProperty sampleObject ''b''"
    by (simp add: sampleObject_def hasProperty_def objectPrototypeKeys_def)
  have p: "''__proto__'' |\<notin>| fmdom sampleChanged" by (simp add: sampleChanged_def)
  have a: "''__proto__'' |\<notin>| fmdom (fmempty :: (string, val) fmap)" by simp
  have r: "applyDiff (VObj sampleObject) (ObjectDiff (fmdrop ''b'' sampleChanged) fmempty [])
       = VObj (fmupd ''a'' (VNum 7) fmempty)"
    by (auto simp: sampleObject_def sampleChanged_def fmlookup_applyObjectDiff hasProperty_def
          getProperty_def intro!: fmap_ext)
  show ?thesis
    using absent_changed_key_skipped [OF c o p a, of "[]"] c o p r by simp
qed

text \<open>
  The claim as the specification states it fails for a key that the object does not have
  but inherits: the changed key \<^verbatim>\<open>toString\<close> is not a property of \<^verbatim>\<open>{a: 1}\<close> and is not
  in \<^verbatim>\<open>added\<close>, yet its child diff is applied, to the inherited function, and the result
  has an own property \<^verbatim>\<open>toString\<close>.
\<close>

theorem inherited_changed_key_applied:
  "''toString'' |\<in>| fmdom inheritedChanged
   \<and> ''toString'' |\<notin>| fmdom sampleObject
   \<and> ''toString'' |\<notin>| fmdom (fmempty :: (string, val) fmap)
   \<and> fmlookup (applyObjectDiff sampleObject (ObjectDiff inheritedChanged fmempty [])) ''toString''
       = Some (VNum 7)
   \<and> applyDiff (VObj sampleObject) (ObjectDiff inheritedChanged fmempty [])
       = VObj (fmap_of_list [(''a'', VNum 1), (''toString'', VNum 7)])
   \<and> applyDiff (VObj sampleObject) (ObjectDiff inheritedChanged fmempty [])
       \<noteq> applyDiff (VObj sampleObject) (ObjectDiff (fmdrop ''toString'' inheritedChanged) fmempty [])"
  by code_simp

subsection \<open>The fallback of \<^verbatim>\<open>applyDiff\<close>\<close>

text \<open>
  Where \<^verbatim>\<open>applyDiff\<close> warns, it returns the value it was given: an array diff on a value
  that is not an array, an object diff on a value that is not an object.
\<close>

lemma applyDiff_fallback:
  "applyDiffWarns v d \<Longrightarrow> applyDiff v d = v"
  by (cases d; cases v) simp_all

text \<open>An object diff on an array never warns, and returns an object.\<close>

lemma object_diff_on_array:
  "\<not> applyDiffWarns (VArr xs) (ObjectDiff changed added deleted)"
  "applyDiff (VArr xs) (ObjectDiff changed added deleted)
     = VObj (applyObjectDiff (arrayEntries xs) (ObjectDiff changed added deleted))"
  by simp_all

lemma showNat_digits: "showNat 0 = ''0''" "showNat (Suc 0) = ''1''"
  by (simp_all add: showNat.simps)

text \<open>
  Claim C9 (shape mismatch). An object diff applied to an array is not refused: an array
  passes the test \<^verbatim>\<open>value !== null && typeof value === 'object'\<close>, so \<^verbatim>\<open>applyDiff\<close>
  spreads it into a plain object and returns that, with no warning, where the claim has it
  return the array unchanged.
\<close>

theorem object_diff_applied_to_array:
  "applyDiff (VArr [VNum 1, VNum 2]) (ObjectDiff fmempty fmempty [])
     = VObj (fmupd ''0'' (VNum 1) (fmupd ''1'' (VNum 2) fmempty))
   \<and> applyDiff (VArr [VNum 1, VNum 2]) (ObjectDiff fmempty fmempty []) \<noteq> VArr [VNum 1, VNum 2]
   \<and> \<not> applyDiffWarns (VArr [VNum 1, VNum 2]) (ObjectDiff fmempty fmempty [])"
  by (auto simp: arrayEntries_def showNat_digits fmlookup_applyObjectDiff upt_rec [of 0] upt_rec [of 1]
        intro!: fmap_ext)

subsection \<open>Array diffs\<close>

lemma strictEq_sound:
  assumes "soundRef sameRef" and "strictEq sameRef x y"
  shows "x = y"
  using assms by (induction sameRef x y rule: strictEq.induct) (auto simp: soundRef_def)

lemma createArrayLoop_eq:
  "createArrayLoop sameRef old new maxLen i items hc =
     (items @ concat (map (arrayItemAt sameRef old new) [i..<maxLen]),
      hc \<or> concat (map (arrayItemAt sameRef old new) [i..<maxLen]) \<noteq> [])"
proof (induction sameRef old new maxLen i items hc rule: createArrayLoop.induct)
  case (1 sameRef oldArray newArray maxLen i items hasChanges)
  show ?case
  proof (cases "i < maxLen")
    case True
    then have upt: "[i..<maxLen] = i # [Suc i..<maxLen]" by (simp add: upt_conv_Cons)
    show ?thesis
      using True 1
      by (subst createArrayLoop.simps) (simp add: upt arrayItemAt_def [of _ _ _ i])
  next
    case False
    then show ?thesis by (subst createArrayLoop.simps) simp
  qed
qed

lemma createArrayDiff_eq:
  "createArrayDiff sameRef old new =
     (let items = concat (map (arrayItemAt sameRef old new) [0..<max (length old) (length new)])
      in if items \<noteq> [] then Some (ArrayDiff items) else None)"
  by (simp add: createArrayDiff_def createArrayLoop_eq Let_def)

lemma arrayItems_split:
  "concat (map (arrayItemAt sameRef old new) [0..<max (length old) (length new)])
     = concat (map (changedAt sameRef old new) [0..<min (length old) (length new)])
       @ map (addedItem new) [length old..<length new]
       @ map (removedItem old) [length new..<length old]"
proof -
  let ?m = "min (length old) (length new)" and ?M = "max (length old) (length new)"
  have split: "[0..<?M] = [0..<?m] @ [?m..<?M]"
    by (metis le_add_diff_inverse min.cobounded1 max.coboundedI1 min.cobounded2 max.coboundedI2 upt_add_eq_append zero_le min_def)
  have pre: "map (arrayItemAt sameRef old new) [0..<?m] = map (changedAt sameRef old new) [0..<?m]"
    by (simp add: arrayItemAt_def changedAt_def)
  have post: "concat (map (arrayItemAt sameRef old new) [?m..<?M])
      = map (addedItem new) [length old..<length new] @ map (removedItem old) [length new..<length old]"
  proof (cases "length old \<le> length new")
    case True
    then have "map (arrayItemAt sameRef old new) [?m..<?M] = map (\<lambda>i. [addedItem new i]) [length old..<length new]"
      by (simp add: arrayItemAt_def addedItem_def min_def max_def)
    then have "concat (map (arrayItemAt sameRef old new) [?m..<?M])
        = concat (map (\<lambda>i. [addedItem new i]) [length old..<length new])"
      by (rule arg_cong)
    then show ?thesis using True by (simp only: concat_map_singleton) simp
  next
    case False
    then have "map (arrayItemAt sameRef old new) [?m..<?M] = map (\<lambda>i. [removedItem old i]) [length new..<length old]"
      by (simp add: arrayItemAt_def removedItem_def min_def max_def)
    then have "concat (map (arrayItemAt sameRef old new) [?m..<?M])
        = concat (map (\<lambda>i. [removedItem old i]) [length new..<length old])"
      by (rule arg_cong)
    then show ?thesis using False by (simp only: concat_map_singleton) simp
  qed
  show ?thesis
    by (subst split) (simp only: map_append concat_append pre post)
qed

lemma fold_applyItem_changes:
  assumes "n \<le> length r" and "n \<le> length new"
      and "\<And>i. i < n \<Longrightarrow> strictEq sameRef (old ! i) (new ! i) \<Longrightarrow> r ! i = new ! i"
      and "\<And>i. i < n \<Longrightarrow> \<not> strictEq sameRef (old ! i) (new ! i) \<Longrightarrow> new ! i \<noteq> VUndefined"
  shows "fold applyItem (concat (map (changedAt sameRef old new) [0..<n])) r = take n new @ drop n r"
  using assms
proof (induction n)
  case 0
  then show ?case by simp
next
  case (Suc n)
  have IH: "fold applyItem (concat (map (changedAt sameRef old new) [0..<n])) r = take n new @ drop n r"
    using Suc by simp
  have n: "n < length r" "n < length new" using Suc.prems by simp_all
  have len: "length (take n new) = n" using n by simp
  have unfold: "fold applyItem (concat (map (changedAt sameRef old new) [0..<Suc n])) r
      = fold applyItem (changedAt sameRef old new n) (take n new @ drop n r)"
    by (simp add: IH)
  show ?case
  proof (cases "strictEq sameRef (old ! n) (new ! n)")
    case True
    then have "r ! n = new ! n" using Suc.prems(3) by simp
    then have "take n new @ drop n r = take (Suc n) new @ drop (Suc n) r"
      using n by (simp add: take_Suc_conv_app_nth Cons_nth_drop_Suc [symmetric])
    moreover have "changedAt sameRef old new n = []"
      using True by (simp add: changedAt_def)
    ultimately show ?thesis by (simp only: unfold fold_simps)
  next
    case False
    then have def: "new ! n \<noteq> VUndefined" using Suc.prems(4) by simp
    have "assignIndex n (new ! n) (take n new @ drop n r) = take (Suc n) new @ drop (Suc n) r"
      using n by (simp add: assignIndex_def list_update_append take_Suc_conv_app_nth
          upd_conv_take_nth_drop)
    moreover have "changedAt sameRef old new n
        = [\<lparr>item_index = n, item_value = new ! n, item_added = False, item_removed = False\<rparr>]"
      using False by (simp add: changedAt_def)
    ultimately show ?thesis using def by (simp only: unfold) (simp add: applyItem_def)
  qed
qed

lemma fold_applyItem_added:
  assumes "length r = a"
  shows "fold applyItem (map (\<lambda>i. \<lparr>item_index = i, item_value = f i, item_added = True, item_removed = rm i\<rparr>) [a..<b]) r
           = r @ map f [a..<b]"
proof (cases "a \<le> b")
  case False
  then show ?thesis by simp
next
  case True
  then show ?thesis
  proof (induction b rule: dec_induct)
    case base
    then show ?case by simp
  next
    case (step b)
    then show ?case using assms
      by (simp add: applyItem_def spliceInsert_def)
  qed
qed

lemma fold_applyItem_removed:
  "fold applyItem (map (\<lambda>i. \<lparr>item_index = g i, item_value = f i, item_added = False, item_removed = True\<rparr>) js) r = r"
  by (induction js) (simp_all add: applyItem_def)

lemma fold_spliceRemove_rev:
  assumes "a \<le> b" and "length r = b"
  shows "fold (\<lambda>it res. spliceRemove (item_index it) res)
           (map (\<lambda>i. \<lparr>item_index = i, item_value = f i, item_added = ad i, item_removed = rm i\<rparr>) (rev [a..<b])) r
         = take a r"
  using assms
proof (induction b arbitrary: r rule: dec_induct)
  case base
  then show ?case by simp
next
  case (step b)
  have "spliceRemove b r = take b r" using step.prems by (simp add: spliceRemove_def)
  moreover have "length (take b r) = b" using step.prems by simp
  ultimately show ?case using step by (simp add: min_def)
qed

lemma insort_key_last:
  assumes "\<forall>y \<in> set ys. f y < f x"
  shows "insort_key f x ys = ys @ [x]"
  using assms
proof (induction ys)
  case Nil
  then show ?case by simp
next
  case (Cons a ys)
  then have "\<not> f x \<le> f a" by (simp add: not_le)
  with Cons show ?case by simp
qed

lemma sort_key_descending:
  fixes g :: "nat \<Rightarrow> item"
  assumes "\<And>i. item_index (g i) = i"
  shows "sort_key (\<lambda>it. - int (item_index it)) (map g [a..<b]) = map g (rev [a..<b])"
proof (induction "b - a" arbitrary: a)
  case 0
  then show ?case by simp
next
  case (Suc n)
  then have ab: "a < b" and n: "n = b - Suc a" by simp_all
  have upt: "[a..<b] = a # [Suc a..<b]" using ab by (simp add: upt_conv_Cons)
  have IH: "sort_key (\<lambda>it. - int (item_index it)) (map g [Suc a..<b]) = map g (rev [Suc a..<b])"
    using Suc.hyps(1) [OF n] .
  have "insort_key (\<lambda>it. - int (item_index it)) (g a) (map g (rev [Suc a..<b])) = map g (rev [Suc a..<b]) @ [g a]"
    by (rule insort_key_last) (auto simp: assms)
  then show ?case by (simp add: upt IH)
qed

lemma map_nth_upt_drop: "map ((!) xs) [a..<length xs] = drop a xs"
  by (simp add: list_eq_iff_nth_eq)

lemma changedAt_flags:
  assumes "it \<in> set (concat (map (changedAt sameRef old new) js))"
  shows "\<not> item_added it \<and> \<not> item_removed it \<and> (\<exists>i \<in> set js. \<not> strictEq sameRef (old ! i) (new ! i)
           \<and> it = \<lparr>item_index = i, item_value = new ! i, item_added = False, item_removed = False\<rparr>)"
  using assms by (auto simp: changedAt_def split: if_splits)

lemma changedAt_member:
  assumes "i \<in> set js" and "\<not> strictEq sameRef (old ! i) (new ! i)"
  shows "\<lparr>item_index = i, item_value = new ! i, item_added = False, item_removed = False\<rparr>
           \<in> set (concat (map (changedAt sameRef old new) js))"
  using assms by (auto simp: changedAt_def)

lemma filter_removed_items:
  "filter item_removed (concat (map (changedAt sameRef old new) js) @ map (addedItem new) as @ map (removedItem old) rs)
     = map (removedItem old) rs"
proof -
  have "filter item_removed (concat (map (changedAt sameRef old new) js)) = []"
    using changedAt_flags [of _ sameRef old new js] by (auto simp: filter_empty_conv)
  moreover have "filter item_removed (map (addedItem new) as) = []"
    by (simp add: filter_empty_conv addedItem_def)
  moreover have "filter item_removed (map (removedItem old) rs) = map (removedItem old) rs"
    by (simp add: filter_id_conv removedItem_def)
  ultimately show ?thesis by simp
qed

lemma removedItem_alt:
  "map (removedItem old) js
     = map (\<lambda>i. \<lparr>item_index = i, item_value = old ! i, item_added = False, item_removed = True\<rparr>) js"
  by (simp add: removedItem_def)

lemma addedItem_alt:
  "map (addedItem new) js
     = map (\<lambda>i. \<lparr>item_index = i, item_value = new ! i, item_added = True, item_removed = False\<rparr>) js"
  by (simp add: addedItem_def)

lemma applyArrayDiff_forward:
  assumes sound: "soundRef sameRef"
      and items: "items = concat (map (arrayItemAt sameRef old new) [0..<max (length old) (length new)])"
      and defined: "list_all (\<lambda>it. item_added it \<or> item_removed it \<or> item_value it \<noteq> VUndefined) items"
  shows "applyArrayDiff old items = new"
proof -
  let ?m = "min (length old) (length new)"
  let ?C = "concat (map (changedAt sameRef old new) [0..<?m])"
  let ?A = "map (addedItem new) [length old..<length new]"
  let ?R = "map (removedItem old) [length new..<length old]"
  have split: "items = ?C @ ?A @ ?R"
    unfolding items by (rule arrayItems_split)
  have removals: "sort_key (\<lambda>it. - int (item_index it)) (filter item_removed items)
      = map (removedItem old) (rev [length new..<length old])"
    unfolding split filter_removed_items
    by (rule sort_key_descending) (simp add: removedItem_def)
  define r1 where "r1 = fold (\<lambda>it res. spliceRemove (item_index it) res)
      (map (removedItem old) (rev [length new..<length old])) old"
  have r1: "r1 = take ?m old"
  proof (cases "length new \<le> length old")
    case True
    then show ?thesis
      unfolding r1_def removedItem_alt
      by (subst fold_spliceRemove_rev) (simp_all add: min_def)
  next
    case False
    then show ?thesis by (simp add: r1_def min_def)
  qed
  have C: "fold applyItem ?C r1 = take ?m new @ drop ?m r1"
  proof (rule fold_applyItem_changes)
    show "?m \<le> length r1" by (simp add: r1)
    show "?m \<le> length new" by simp
  next
    fix i assume "i < ?m" and "strictEq sameRef (old ! i) (new ! i)"
    then show "r1 ! i = new ! i"
      using strictEq_sound [OF sound] by (simp add: r1)
  next
    fix i assume i: "i < ?m" and ne: "\<not> strictEq sameRef (old ! i) (new ! i)"
    have "\<lparr>item_index = i, item_value = new ! i, item_added = False, item_removed = False\<rparr> \<in> set items"
      unfolding split using changedAt_member [of i "[0..<?m]" sameRef old new] i ne by simp
    with defined show "new ! i \<noteq> VUndefined"
      by (auto simp: list_all_iff)
  qed
  then have C': "fold applyItem ?C r1 = take ?m new"
    by (simp add: r1)
  have A: "fold applyItem ?A (take ?m new) = new"
  proof (cases "length old \<le> length new")
    case True
    then have "fold applyItem ?A (take ?m new) = take (length old) new @ map ((!) new) [length old..<length new]"
      unfolding addedItem_alt by (subst fold_applyItem_added) (simp_all add: min_def)
    then show ?thesis by (simp add: map_nth_upt_drop)
  next
    case False
    then show ?thesis by (simp add: min_def)
  qed
  have R: "fold applyItem ?R new = new"
    unfolding removedItem_alt by (rule fold_applyItem_removed)
  have "applyArrayDiff old items = fold applyItem items r1"
    by (simp add: applyArrayDiff_def Let_def removals r1_def)
  also have "\<dots> = new"
    unfolding split by (simp only: fold_append o_apply C' A R)
  finally show ?thesis .
qed

lemma lossless_no_changes:
  assumes "list_all (\<lambda>it. item_added it \<or> item_removed it)
             (concat (map (changedAt sameRef old new) js) @ rest)"
      and "i \<in> set js"
  shows "strictEq sameRef (old ! i) (new ! i)"
proof (rule ccontr)
  assume "\<not> strictEq sameRef (old ! i) (new ! i)"
  then have "\<lparr>item_index = i, item_value = new ! i, item_added = False, item_removed = False\<rparr>
      \<in> set (concat (map (changedAt sameRef old new) js))"
    using assms(2) by (rule changedAt_member [rotated])
  then have "\<lparr>item_index = i, item_value = new ! i, item_added = False, item_removed = False\<rparr>
      \<in> set (concat (map (changedAt sameRef old new) js) @ rest)"
    by (simp only: set_append UnI1)
  with assms(1) have "item_added \<lparr>item_index = i, item_value = new ! i, item_added = False, item_removed = False\<rparr>
      \<or> item_removed \<lparr>item_index = i, item_value = new ! i, item_added = False, item_removed = False\<rparr>"
    unfolding list_all_iff by (rule bspec)
  then show False by simp
qed

lemma no_changes_empty:
  assumes "\<And>i. i \<in> set js \<Longrightarrow> strictEq sameRef (old ! i) (new ! i)"
  shows "concat (map (changedAt sameRef old new) js) = []"
  using assms by (simp add: changedAt_def)

lemma reverse_added:
  "map reverseItem (map (addedItem new) js)
     = map (\<lambda>i. \<lparr>item_index = i, item_value = new ! i, item_added = False, item_removed = True\<rparr>) js"
  by (simp add: reverseItem_def addedItem_def)

lemma reverse_removed:
  "map reverseItem (map (removedItem old) js)
     = map (\<lambda>i. \<lparr>item_index = i, item_value = old ! i, item_added = True, item_removed = False\<rparr>) js"
  by (simp add: reverseItem_def removedItem_def)

lemma applyArrayDiff_backward:
  assumes sound: "soundRef sameRef"
      and items: "items = concat (map (arrayItemAt sameRef old new) [0..<max (length old) (length new)])"
      and lossless: "list_all (\<lambda>it. item_added it \<or> item_removed it) items"
  shows "applyArrayDiff new (map reverseItem items) = old"
proof -
  let ?m = "min (length old) (length new)"
  let ?C = "concat (map (changedAt sameRef old new) [0..<?m])"
  let ?A = "map (addedItem new) [length old..<length new]"
  let ?R = "map (removedItem old) [length new..<length old]"
  let ?A' = "map (\<lambda>i. \<lparr>item_index = i, item_value = new ! i, item_added = False, item_removed = True\<rparr>)
               [length old..<length new]"
  let ?R' = "map (\<lambda>i. \<lparr>item_index = i, item_value = old ! i, item_added = True, item_removed = False\<rparr>)
               [length new..<length old]"
  have split: "items = ?C @ ?A @ ?R"
    unfolding items by (rule arrayItems_split)
  have same: "strictEq sameRef (old ! i) (new ! i)" if "i < ?m" for i
    using lossless_no_changes [of sameRef old new "[0..<?m]" "?A @ ?R" i] lossless that
    unfolding split by simp
  then have prefix: "old ! i = new ! i" if "i < ?m" for i
    using strictEq_sound [OF sound] that by simp
  have noC: "?C = []"
    by (rule no_changes_empty) (simp add: same)
  have rev: "map reverseItem items = ?A' @ ?R'"
    by (simp only: split noC append_Nil map_append reverse_added reverse_removed)
  have filt: "filter item_removed (?A' @ ?R') = ?A'"
    by (simp add: filter_id_conv filter_empty_conv)
  have removals: "sort_key (\<lambda>it. - int (item_index it)) (filter item_removed (?A' @ ?R'))
      = map (\<lambda>i. \<lparr>item_index = i, item_value = new ! i, item_added = False, item_removed = True\<rparr>)
          (rev [length old..<length new])"
    unfolding filt by (rule sort_key_descending) simp
  define r1 where "r1 = fold (\<lambda>it res. spliceRemove (item_index it) res)
      (map (\<lambda>i. \<lparr>item_index = i, item_value = new ! i, item_added = False, item_removed = True\<rparr>)
          (rev [length old..<length new])) new"
  have r1: "r1 = take ?m new"
  proof (cases "length old \<le> length new")
    case True
    then show ?thesis
      unfolding r1_def by (subst fold_spliceRemove_rev) (simp_all add: min_def)
  next
    case False
    then show ?thesis by (simp add: r1_def min_def)
  qed
  have A: "fold applyItem ?A' r1 = r1"
    by (rule fold_applyItem_removed)
  have R: "fold applyItem ?R' r1 = old"
  proof (cases "length new \<le> length old")
    case True
    then have len: "length r1 = length new" by (simp add: r1)
    have "fold applyItem ?R' r1 = r1 @ map ((!) old) [length new..<length old]"
      by (subst fold_applyItem_added) (simp_all add: len)
    also have "\<dots> = take (length new) old @ drop (length new) old"
    proof -
      have "r1 = take (length new) old"
        using True prefix by (auto simp: r1 list_eq_iff_nth_eq min_def)
      then show ?thesis by (simp add: map_nth_upt_drop)
    qed
    finally show ?thesis by simp
  next
    case False
    then have "r1 = old"
      using prefix by (auto simp: r1 list_eq_iff_nth_eq min_def)
    with False show ?thesis by simp
  qed
  have "applyArrayDiff new (map reverseItem items) = fold applyItem (?A' @ ?R') r1"
    unfolding rev by (simp only: applyArrayDiff_def Let_def removals r1_def)
  also have "\<dots> = old"
    by (simp only: fold_append o_apply A R)
  finally show ?thesis .
qed

lemma createArrayDiff_None:
  assumes sound: "soundRef sameRef"
      and none: "createArrayDiff sameRef old new = None"
  shows "old = new"
proof -
  let ?m = "min (length old) (length new)"
  from none have empty: "concat (map (changedAt sameRef old new) [0..<?m])
       @ map (addedItem new) [length old..<length new]
       @ map (removedItem old) [length new..<length old] = []"
    by (simp add: createArrayDiff_eq Let_def arrayItems_split split: if_splits)
  then have len: "length old = length new" by auto
  have "strictEq sameRef (old ! i) (new ! i)" if "i < length old" for i
  proof (rule ccontr)
    assume "\<not> strictEq sameRef (old ! i) (new ! i)"
    then have "\<lparr>item_index = i, item_value = new ! i, item_added = False, item_removed = False\<rparr>
        \<in> set (concat (map (changedAt sameRef old new) [0..<?m]))"
      using that len by (intro changedAt_member) simp_all
    with empty show False by simp
  qed
  then show ?thesis
    using strictEq_sound [OF sound] len by (auto simp: list_eq_iff_nth_eq)
qed

lemma createArrayDiff_Some:
  assumes "createArrayDiff sameRef old new = Some d"
  shows "d = ArrayDiff (concat (map (arrayItemAt sameRef old new) [0..<max (length old) (length new)]))"
  using assms by (simp add: createArrayDiff_eq Let_def split: if_splits)

subsection \<open>Object diffs\<close>

lemma size_fmlookup_val:
  assumes "fmlookup m k = Some v"
  shows "size v < size (VObj m)"
  using fmlookup_size_less [OF assms, of size]
  by (simp add: size_fmap_def)

text \<open>
  Between two objects without inherited names, \<^verbatim>\<open>createObjectDiff\<close> works with own
  properties only.
\<close>

lemma createObjectDiff_parts:
  assumes plainOld: "noInheritedKey oldObj" and plainNew: "noInheritedKey newObj"
  shows "createObjectDiff sameRef (VObj oldObj) (VObj newObj) =
     (if (\<forall>key. changedEntry sameRef oldObj newObj key = None)
          \<and> fmdom newObj |\<subseteq>| fmdom oldObj \<and> fmdom oldObj |\<subseteq>| fmdom newObj
      then None
      else Some (ObjectDiff
        (fmsomes (fmmap_keys (\<lambda>key oldv.
                       case fmlookup newObj key of
                         None \<Rightarrow> None
                       | Some newv \<Rightarrow>
                           if \<not> strictEq sameRef newv oldv
                           then createDiff sameRef oldv newv else None) oldObj))
        (fmfilter (\<lambda>key. key |\<notin>| fmdom oldObj) newObj)
        (filter (\<lambda>key. key |\<notin>| fmdom newObj) (objectKeys oldObj))))"
proof -
  let ?changed = "fmsomes (fmmap_keys (\<lambda>key oldv.
                       case fmlookup newObj key of
                         None \<Rightarrow> None
                       | Some newv \<Rightarrow>
                           if \<not> strictEq sameRef newv oldv
                           then createDiff sameRef oldv newv else None) oldObj)"
  let ?added = "fmfilter (\<lambda>key. key |\<notin>| fmdom oldObj) newObj"
  let ?deleted = "filter (\<lambda>key. key |\<notin>| fmdom newObj) (objectKeys oldObj)"
  have lookup: "fmlookup ?changed key = changedEntry sameRef oldObj newObj key" for key
    by (simp add: fmlookup_fmsomes changedEntry_def split: option.splits)
  have c: "?changed = fmempty \<longleftrightarrow> (\<forall>key. changedEntry sameRef oldObj newObj key = None)"
  proof
    assume "?changed = fmempty"
    then have "fmlookup ?changed key = None" for key by simp
    then show "\<forall>key. changedEntry sameRef oldObj newObj key = None"
      by (simp only: lookup) simp
  next
    assume "\<forall>key. changedEntry sameRef oldObj newObj key = None"
    then show "?changed = fmempty"
      by (intro fmap_ext) (simp only: lookup, simp)
  qed
  have a: "?added = fmempty \<longleftrightarrow> fmdom newObj |\<subseteq>| fmdom oldObj"
  proof
    assume e: "?added = fmempty"
    show "fmdom newObj |\<subseteq>| fmdom oldObj"
    proof
      fix k assume k: "k |\<in>| fmdom newObj"
      show "k |\<in>| fmdom oldObj"
      proof (rule ccontr)
        assume "k |\<notin>| fmdom oldObj"
        then have "fmlookup ?added k = fmlookup newObj k" by simp
        with e k show False by (simp add: fmlookup_dom_iff)
      qed
    qed
  next
    assume "fmdom newObj |\<subseteq>| fmdom oldObj"
    then show "?added = fmempty"
      by (intro fmap_ext) (auto simp: fmlookup_dom_iff)
  qed
  have d: "?deleted = [] \<longleftrightarrow> fmdom oldObj |\<subseteq>| fmdom newObj"
    by (auto simp: filter_empty_conv set_objectKeys fmdom'_alt_def)
  have own: "hasProperty m key = (fmlookup m key \<noteq> None)"
    "getProperty m key = (case fmlookup m key of Some v \<Rightarrow> v | None \<Rightarrow> VUndefined)"
    if "fmlookup oldObj key \<noteq> None \<or> fmlookup newObj key \<noteq> None" for m key
  proof -
    from that have "key \<notin> set objectPrototypeKeys"
      using noInheritedKey_None [OF plainOld, of key] noInheritedKey_None [OF plainNew, of key]
      by auto
    then show "hasProperty m key = (fmlookup m key \<noteq> None)"
      "getProperty m key = (case fmlookup m key of Some v \<Rightarrow> v | None \<Rightarrow> VUndefined)"
      by (rule hasProperty_own)+
  qed
  have ch: "fmsomes (fmmap_keys (\<lambda>key oldv.
                       if \<not> hasProperty newObj key then None
                       else if \<not> strictEq sameRef (getProperty newObj key) oldv
                         then createDiff sameRef oldv (getProperty newObj key)
                       else None) oldObj) = ?changed"
  proof (intro fmap_ext)
    fix key
    show "fmlookup (fmsomes (fmmap_keys (\<lambda>key oldv.
                       if \<not> hasProperty newObj key then None
                       else if \<not> strictEq sameRef (getProperty newObj key) oldv
                         then createDiff sameRef oldv (getProperty newObj key)
                       else None) oldObj)) key = fmlookup ?changed key"
      by (cases "fmlookup oldObj key") (auto simp: fmlookup_fmsomes own split: option.splits)
  qed
  have ad: "fmfilter (\<lambda>key. \<not> hasProperty oldObj key) newObj = ?added"
  proof (intro fmap_ext)
    fix key
    show "fmlookup (fmfilter (\<lambda>key. \<not> hasProperty oldObj key) newObj) key = fmlookup ?added key"
      by (cases "fmlookup newObj key") (auto simp: own fmlookup_dom_iff)
  qed
  have de: "filter (\<lambda>key. \<not> hasProperty newObj key) (objectKeys oldObj) = ?deleted"
    by (rule filter_cong [OF refl])
       (auto simp: set_objectKeys fmlookup_dom'_iff own fmlookup_dom_iff)
  show ?thesis
    by (simp only: createObjectDiff.simps Let_def ch ad de c a d)
qed

lemma fmlookup_changed:
  "fmlookup (fmsomes (fmmap_keys (\<lambda>key oldv.
                       case fmlookup newObj key of
                         None \<Rightarrow> None
                       | Some newv \<Rightarrow>
                           if \<not> strictEq sameRef newv oldv
                           then createDiff sameRef oldv newv else None) oldObj)) key
     = changedEntry sameRef oldObj newObj key"
  by (simp add: fmlookup_fmsomes changedEntry_def split: option.splits)

lemma createDiff_value:
  assumes "\<not> strictEq sameRef v1 v2"
      and "falsy v1 \<or> falsy v2 \<or> typeof v1 \<noteq> TObject \<or> typeof v2 \<noteq> TObject \<or> isArray v1 \<noteq> isArray v2"
  shows "createDiff sameRef v1 v2 = Some (ValueDiff v1 v2)"
  using assms by (simp add: createDiff.simps)

lemma createDiff_same:
  assumes "strictEq sameRef v1 v2"
  shows "createDiff sameRef v1 v2 = None"
  using assms by (simp add: createDiff.simps)

lemma createDiff_arrays:
  assumes "\<not> strictEq sameRef (VArr xs) (VArr ys)"
  shows "createDiff sameRef (VArr xs) (VArr ys) = createArrayDiff sameRef xs ys"
  using assms by (simp add: createDiff.simps)

lemma createDiff_objects:
  assumes "\<not> strictEq sameRef (VObj om) (VObj nm)"
  shows "createDiff sameRef (VObj om) (VObj nm) = createObjectDiff sameRef (VObj om) (VObj nm)"
  using assms by (simp add: createDiff.simps)

lemma createDiff_shapes:
  obtains (same) "strictEq sameRef v1 v2"
  | (val) "\<not> strictEq sameRef v1 v2"
      "falsy v1 \<or> falsy v2 \<or> typeof v1 \<noteq> TObject \<or> typeof v2 \<noteq> TObject \<or> isArray v1 \<noteq> isArray v2"
  | (arrays) xs ys where "\<not> strictEq sameRef v1 v2" "v1 = VArr xs" "v2 = VArr ys"
  | (objects) om nm where "\<not> strictEq sameRef v1 v2" "v1 = VObj om" "v2 = VObj nm"
  by (cases v1; cases v2) auto

lemma object_unchanged:
  assumes sound: "soundRef sameRef"
      and none: "\<And>key oldv newv. fmlookup oldObj key = Some oldv \<Longrightarrow> fmlookup newObj key = Some newv
                  \<Longrightarrow> createDiff sameRef oldv newv = None \<Longrightarrow> oldv = newv"
      and old: "fmlookup oldObj key = Some oldv" and new: "fmlookup newObj key = Some newv"
      and entry: "changedEntry sameRef oldObj newObj key = None"
  shows "oldv = newv"
proof (cases "strictEq sameRef newv oldv")
  case True
  then show ?thesis using strictEq_sound [OF sound] by auto
next
  case False
  with entry old new have "createDiff sameRef oldv newv = None"
    by (simp add: changedEntry_def)
  then show ?thesis using none old new by blast
qed

lemma changedEntry_Some:
  assumes "changedEntry sameRef oldObj newObj key = Some d"
  obtains oldv newv where "fmlookup oldObj key = Some oldv" "fmlookup newObj key = Some newv"
    "createDiff sameRef oldv newv = Some d"
  using assms by (auto simp: changedEntry_def split: option.splits if_splits)

lemma object_None:
  assumes sound: "soundRef sameRef"
      and plainOld: "noInheritedKey oldObj" and plainNew: "noInheritedKey newObj"
      and none: "\<And>key oldv newv. fmlookup oldObj key = Some oldv \<Longrightarrow> fmlookup newObj key = Some newv
                  \<Longrightarrow> createDiff sameRef oldv newv = None \<Longrightarrow> oldv = newv"
      and diff: "createObjectDiff sameRef (VObj oldObj) (VObj newObj) = None"
  shows "oldObj = newObj"
proof (intro fmap_ext)
  fix key
  from diff have entries: "changedEntry sameRef oldObj newObj key = None"
    and dom: "fmdom newObj = fmdom oldObj"
    by (auto simp: createObjectDiff_parts [OF plainOld plainNew] split: if_splits)
  show "fmlookup oldObj key = fmlookup newObj key"
  proof (cases "fmlookup oldObj key")
    case None
    then have "key |\<notin>| fmdom newObj" by (simp add: dom fmdom_notI)
    with None show ?thesis by (simp add: fmdom_notD)
  next
    case (Some oldv)
    then have "key |\<in>| fmdom newObj" by (simp add: dom fmdomI)
    then obtain newv where new: "fmlookup newObj key = Some newv" by (auto simp: fmlookup_dom_iff)
    from object_unchanged [OF sound none Some new entries] show ?thesis
      by (simp add: Some new)
  qed
qed

lemma object_forward:
  assumes sound: "soundRef sameRef"
      and plainOld: "noInheritedKey oldObj" and plainNew: "noInheritedKey newObj"
      and none: "\<And>key oldv newv. fmlookup oldObj key = Some oldv \<Longrightarrow> fmlookup newObj key = Some newv
                  \<Longrightarrow> createDiff sameRef oldv newv = None \<Longrightarrow> oldv = newv"
      and some: "\<And>key oldv newv d. fmlookup oldObj key = Some oldv \<Longrightarrow> fmlookup newObj key = Some newv
                  \<Longrightarrow> createDiff sameRef oldv newv = Some d \<Longrightarrow> replacesDefined d
                  \<Longrightarrow> applyDiff oldv d = newv"
      and diff: "createObjectDiff sameRef (VObj oldObj) (VObj newObj) = Some d"
      and ok: "replacesDefined d"
  shows "applyObjectDiff oldObj d = newObj"
proof (intro fmap_ext)
  fix key
  let ?changed = "fmsomes (fmmap_keys (\<lambda>key oldv.
                       case fmlookup newObj key of
                         None \<Rightarrow> None
                       | Some newv \<Rightarrow>
                           if \<not> strictEq sameRef newv oldv
                           then createDiff sameRef oldv newv else None) oldObj)"
  let ?added = "fmfilter (\<lambda>key. key |\<notin>| fmdom oldObj) newObj"
  let ?deleted = "filter (\<lambda>key. key |\<notin>| fmdom newObj) (objectKeys oldObj)"
  from diff have d: "d = ObjectDiff ?changed ?added ?deleted"
    by (simp add: createObjectDiff_parts [OF plainOld plainNew] split: if_splits)
  have children: "replacesDefined cd" if "changedEntry sameRef oldObj newObj key = Some cd" for key cd
    using ok that unfolding d by (auto simp: fmlookup_changed)
  have own: "fmlookup (applyObjectDiff oldObj (ObjectDiff ?changed a dl)) k =
     (if k \<in> set dl then None
      else case fmlookup a k of
        Some v \<Rightarrow> Some v
      | None \<Rightarrow>
         (case fmlookup oldObj k of
            None \<Rightarrow> None
          | Some cur \<Rightarrow>
             Some (case fmlookup ?changed k of None \<Rightarrow> cur | Some childDiff \<Rightarrow> applyDiff cur childDiff)))"
    for a dl k
    by (rule fmlookup_applyObjectDiff_own)
       (simp add: fmlookup_changed changedEntry_def noInheritedKey_None [OF plainOld])
  show "fmlookup (applyObjectDiff oldObj d) key = fmlookup newObj key"
  proof (cases "fmlookup oldObj key")
    case None
    then show ?thesis
      unfolding d
      by (auto simp: own fmlookup_changed set_objectKeys fmlookup_dom_iff
          fmlookup_dom'_iff split: option.splits)
  next
    case old: (Some oldv)
    show ?thesis
    proof (cases "fmlookup newObj key")
      case None
      with old show ?thesis
        unfolding d
        by (auto simp: own set_objectKeys fmlookup_dom_iff
            fmlookup_dom'_iff split: option.splits)
    next
      case new: (Some newv)
      have res: "fmlookup (applyObjectDiff oldObj d) key
          = Some (case changedEntry sameRef oldObj newObj key of
                    None \<Rightarrow> oldv | Some cd \<Rightarrow> applyDiff oldv cd)"
        unfolding d using old new
        by (auto simp: own fmlookup_changed set_objectKeys fmlookup_dom_iff
            fmlookup_dom'_iff split: option.splits)
      show ?thesis
      proof (cases "changedEntry sameRef oldObj newObj key")
        case None
        from object_unchanged [OF sound none old new None] show ?thesis
          by (simp add: res None new)
      next
        case (Some cd)
        then have "createDiff sameRef oldv newv = Some cd"
          using old new by (auto elim!: changedEntry_Some)
        from some [OF old new this children [OF Some]] show ?thesis
          by (simp add: res Some new)
      qed
    qed
  qed
qed

lemma object_backward:
  assumes sound: "soundRef sameRef"
      and plainOld: "noInheritedKey oldObj" and plainNew: "noInheritedKey newObj"
      and none: "\<And>key oldv newv. fmlookup oldObj key = Some oldv \<Longrightarrow> fmlookup newObj key = Some newv
                  \<Longrightarrow> createDiff sameRef oldv newv = None \<Longrightarrow> oldv = newv"
      and some: "\<And>key oldv newv d. fmlookup oldObj key = Some oldv \<Longrightarrow> fmlookup newObj key = Some newv
                  \<Longrightarrow> createDiff sameRef oldv newv = Some d \<Longrightarrow> reversible d
                  \<Longrightarrow> applyDiff newv (reverseDiff d) = oldv"
      and diff: "createObjectDiff sameRef (VObj oldObj) (VObj newObj) = Some d"
      and ok: "reversible d"
  shows "applyObjectDiff newObj (reverseDiff d) = oldObj"
proof (intro fmap_ext)
  fix key
  let ?changed = "fmsomes (fmmap_keys (\<lambda>key oldv.
                       case fmlookup newObj key of
                         None \<Rightarrow> None
                       | Some newv \<Rightarrow>
                           if \<not> strictEq sameRef newv oldv
                           then createDiff sameRef oldv newv else None) oldObj)"
  let ?added = "fmfilter (\<lambda>key. key |\<notin>| fmdom oldObj) newObj"
  let ?deleted = "filter (\<lambda>key. key |\<notin>| fmdom newObj) (objectKeys oldObj)"
  from diff have d: "d = ObjectDiff ?changed ?added ?deleted"
    by (simp add: createObjectDiff_parts [OF plainOld plainNew] split: if_splits)
  have children: "reversible cd" if "changedEntry sameRef oldObj newObj key = Some cd" for key cd
    using ok that unfolding d by (auto simp: fmlookup_changed)
  have own: "fmlookup (applyObjectDiff newObj (ObjectDiff (fmmap reverseDiff ?changed) a dl)) k =
     (if k \<in> set dl then None
      else case fmlookup a k of
        Some v \<Rightarrow> Some v
      | None \<Rightarrow>
         (case fmlookup newObj k of
            None \<Rightarrow> None
          | Some cur \<Rightarrow>
             Some (case fmlookup (fmmap reverseDiff ?changed) k of
                     None \<Rightarrow> cur | Some childDiff \<Rightarrow> applyDiff cur childDiff)))"
    for a dl k
    by (rule fmlookup_applyObjectDiff_own)
       (simp add: fmlookup_changed changedEntry_def noInheritedKey_None [OF plainOld])
  from ok have nodel: "?deleted = []"
    unfolding d by simp
  then have sub: "fmlookup newObj k \<noteq> None" if "fmlookup oldObj k \<noteq> None" for k
    using that by (auto simp: filter_empty_conv set_objectKeys fmlookup_dom'_iff fmlookup_dom_iff)
  have rd: "reverseDiff d = ObjectDiff (fmmap reverseDiff ?changed) fmempty (objectKeys ?added)"
    unfolding d by (simp only: reverseDiff.simps nodel fold_simps)
  show "fmlookup (applyObjectDiff newObj (reverseDiff d)) key = fmlookup oldObj key"
  proof (cases "fmlookup oldObj key")
    case None
    then show ?thesis
      unfolding rd
      by (auto simp: own fmlookup_changed set_objectKeys fmlookup_dom_iff
          fmlookup_dom'_iff split: option.splits)
  next
    case old: (Some oldv)
    with sub [of key] obtain newv where new: "fmlookup newObj key = Some newv" by auto
    have res: "fmlookup (applyObjectDiff newObj (reverseDiff d)) key
        = Some (case changedEntry sameRef oldObj newObj key of
                  None \<Rightarrow> newv | Some cd \<Rightarrow> applyDiff newv (reverseDiff cd))"
      unfolding rd using old new
      by (auto simp: own fmlookup_changed set_objectKeys fmlookup_dom_iff
          fmlookup_dom'_iff split: option.splits)
    show ?thesis
    proof (cases "changedEntry sameRef oldObj newObj key")
      case None
      from object_unchanged [OF sound none old new None] show ?thesis
        by (simp add: res None old)
    next
      case (Some cd)
      then have "createDiff sameRef oldv newv = Some cd"
        using old new by (auto elim!: changedEntry_Some)
      from some [OF old new this children [OF Some]] show ?thesis
        by (simp add: res Some old)
    qed
  qed
qed

subsection \<open>Round trips\<close>

lemma noInheritedNames_lookup:
  assumes "noInheritedNames (VObj obj)" and "fmlookup obj key = Some v"
  shows "noInheritedNames v"
proof -
  from assms(1) have "fmpred (\<lambda>key ok. ok) (fmmap noInheritedNames obj)" by simp
  moreover have "fmlookup (fmmap noInheritedNames obj) key = Some (noInheritedNames v)"
    using assms(2) by simp
  ultimately show ?thesis by (rule fmpredD)
qed

lemma roundtrip_aux:
  assumes sound: "soundRef sameRef"
  shows "noInheritedNames v1 \<Longrightarrow> noInheritedNames v2 \<Longrightarrow>
         (createDiff sameRef v1 v2 = None \<longrightarrow> v1 = v2)
       \<and> (\<forall>d. createDiff sameRef v1 v2 = Some d \<longrightarrow>
             (replacesDefined d \<longrightarrow> applyDiff v1 d = v2)
           \<and> (reversible d \<longrightarrow> applyDiff v2 (reverseDiff d) = v1))"
proof (induction v1 arbitrary: v2 rule: measure_induct_rule [where f = size])
  case (less v1)
  show ?case
  proof (cases rule: createDiff_shapes [of sameRef v1 v2])
    case same
    then show ?thesis
      using strictEq_sound [OF sound] by (simp add: createDiff_same)
  next
    case val
    then show ?thesis
      by (simp add: createDiff_value)
  next
    case (arrays xs ys)
    have eq: "createDiff sameRef v1 v2 = createArrayDiff sameRef xs ys"
      using arrays by (simp add: createDiff_arrays)
    have "xs = ys" if "createArrayDiff sameRef xs ys = None"
      using createArrayDiff_None [OF sound that] .
    moreover have "applyDiff v1 d = v2"
      if "createArrayDiff sameRef xs ys = Some d" "replacesDefined d" for d
      using applyArrayDiff_forward [OF sound refl, of xs ys] createArrayDiff_Some [OF that(1)] that(2)
      by (simp add: arrays)
    moreover have "applyDiff v2 (reverseDiff d) = v1"
      if "createArrayDiff sameRef xs ys = Some d" "reversible d" for d
      using applyArrayDiff_backward [OF sound refl, of xs ys] createArrayDiff_Some [OF that(1)] that(2)
      by (simp add: arrays)
    ultimately show ?thesis
      unfolding eq using arrays by blast
  next
    case (objects om nm)
    have eq: "createDiff sameRef v1 v2 = createObjectDiff sameRef (VObj om) (VObj nm)"
      using objects by (simp add: createDiff_objects)
    have small: "size oldv < size v1" if "fmlookup om key = Some oldv" for key oldv
      using size_fmlookup_val [OF that] by (simp add: objects)
    have names1: "noInheritedNames (VObj om)" and names2: "noInheritedNames (VObj nm)"
      using less.prems objects by simp_all
    then have plain1: "noInheritedKey om" and plain2: "noInheritedKey nm"
      by simp_all
    have child: "(createDiff sameRef oldv newv = None \<longrightarrow> oldv = newv)
       \<and> (\<forall>d. createDiff sameRef oldv newv = Some d \<longrightarrow>
             (replacesDefined d \<longrightarrow> applyDiff oldv d = newv)
           \<and> (reversible d \<longrightarrow> applyDiff newv (reverseDiff d) = oldv))"
      if "fmlookup om key = Some oldv" "fmlookup nm key = Some newv" for key oldv newv
      using less.IH [OF small [OF that(1)] noInheritedNames_lookup [OF names1 that(1)]
          noInheritedNames_lookup [OF names2 that(2)]] .
    have none: "oldv = newv"
      if "fmlookup om key = Some oldv" "fmlookup nm key = Some newv"
         "createDiff sameRef oldv newv = None" for key oldv newv
      using child [OF that(1,2)] that(3) by simp
    have fwd: "applyDiff oldv d = newv"
      if "fmlookup om key = Some oldv" "fmlookup nm key = Some newv"
         "createDiff sameRef oldv newv = Some d" "replacesDefined d" for key oldv newv d
      using child [OF that(1,2)] that(3,4) by simp
    have bwd: "applyDiff newv (reverseDiff d) = oldv"
      if "fmlookup om key = Some oldv" "fmlookup nm key = Some newv"
         "createDiff sameRef oldv newv = Some d" "reversible d" for key oldv newv d
      using child [OF that(1,2)] that(3,4) by simp
    have shape: "\<exists>c a dl. d = ObjectDiff c a dl"
      if "createObjectDiff sameRef (VObj om) (VObj nm) = Some d" for d
      using that by (auto simp: createObjectDiff_parts [OF plain1 plain2] split: if_splits)
    have "om = nm" if "createObjectDiff sameRef (VObj om) (VObj nm) = None"
      by (rule object_None [OF sound plain1 plain2 _ that]) (rule none; assumption)
    moreover have "applyDiff v1 d = v2"
      if d: "createObjectDiff sameRef (VObj om) (VObj nm) = Some d" and ok: "replacesDefined d" for d
    proof -
      have "applyObjectDiff om d = nm"
        by (rule object_forward [OF sound plain1 plain2 _ _ d ok]) (rule none fwd; assumption)+
      then show ?thesis
        using shape [OF d] by (auto simp: objects)
    qed
    moreover have "applyDiff v2 (reverseDiff d) = v1"
      if d: "createObjectDiff sameRef (VObj om) (VObj nm) = Some d" and ok: "reversible d" for d
    proof -
      have "applyObjectDiff nm (reverseDiff d) = om"
        by (rule object_backward [OF sound plain1 plain2 _ _ d ok]) (rule none bwd; assumption)+
      then show ?thesis
        using shape [OF d] by (auto simp: objects)
    qed
    ultimately show ?thesis
      unfolding eq using objects by blast
  qed
qed

lemma soundRef_eq: "soundRef (=)"
  by (simp add: soundRef_def)

text \<open>
  Claim C2 (forward round trip), as the code has it. For all values \<open>v1\<close> and \<open>v2\<close>
  (\<^verbatim>\<open>undefined\<close>, \<^verbatim>\<open>null\<close>, booleans, numbers, strings, arrays and plain objects) whose
  objects have no property named like a property of \<^verbatim>\<open>Object.prototype\<close> and whose diff
  \<open>d\<close> is not \<^verbatim>\<open>null\<close>, \<^verbatim>\<open>applyDiff(v1, d)\<close> equals \<open>v2\<close>, provided that \<open>d\<close> replaces no
  array element by \<^verbatim>\<open>undefined\<close>.
\<close>

theorem applyDiff_createDiff:
  assumes "soundRef sameRef"
      and "noInheritedNames v1" and "noInheritedNames v2"
      and "createDiff sameRef v1 v2 = Some d"
      and "replacesDefined d"
  shows "applyDiff v1 d = v2"
  using roundtrip_aux [OF assms(1,2,3)] assms(4,5) by blast

theorem applyDiff_createDiff_witness:
  "soundRef (=)
   \<and> noInheritedNames objectBefore \<and> noInheritedNames objectAfter
   \<and> createDiff (=) objectBefore objectAfter = Some objectDelta
   \<and> replacesDefined objectDelta
   \<and> applyDiff objectBefore objectDelta = objectAfter"
proof -
  have n: "noInheritedNames objectBefore" "noInheritedNames objectAfter"
    by code_simp+
  have d: "createDiff (=) objectBefore objectAfter = Some objectDelta"
    by code_simp
  have r: "replacesDefined objectDelta"
    by code_simp
  show ?thesis
    using applyDiff_createDiff [OF soundRef_eq n d r] soundRef_eq n d r by simp
qed

text \<open>
  The claim as the specification states it fails: the diff of \<^verbatim>\<open>[1]\<close> and
  \<^verbatim>\<open>[undefined]\<close> is not \<^verbatim>\<open>null\<close>, and applying it to \<^verbatim>\<open>[1]\<close> gives \<^verbatim>\<open>[1]\<close>.
\<close>

theorem undefined_replacement_not_applied:
  "createDiff (=) (VArr [VNum 1]) (VArr [VUndefined])
     = Some (ArrayDiff [\<lparr>item_index = 0, item_value = VUndefined,
                          item_added = False, item_removed = False\<rparr>])
   \<and> applyDiff (VArr [VNum 1])
        (ArrayDiff [\<lparr>item_index = 0, item_value = VUndefined,
                      item_added = False, item_removed = False\<rparr>])
     = VArr [VNum 1]
   \<and> VArr [VNum 1] \<noteq> VArr [VUndefined]"
  by code_simp

text \<open>
  Claim C1 (reverse round trip), as the code has it. For all values \<open>v1\<close> and \<open>v2\<close>
  (\<^verbatim>\<open>undefined\<close>, \<^verbatim>\<open>null\<close>, booleans, numbers, strings, arrays and plain objects) whose
  objects have no property named like a property of \<^verbatim>\<open>Object.prototype\<close> and whose diff
  \<open>d\<close> is not \<^verbatim>\<open>null\<close>, \<^verbatim>\<open>applyDiff(v2, reverseDiff(d))\<close> equals \<open>v1\<close>, provided that \<open>d\<close>
  deletes no property and replaces no array element.
\<close>

theorem applyDiff_reverseDiff:
  assumes "soundRef sameRef"
      and "noInheritedNames v1" and "noInheritedNames v2"
      and "createDiff sameRef v1 v2 = Some d"
      and "reversible d"
  shows "applyDiff v2 (reverseDiff d) = v1"
  using roundtrip_aux [OF assms(1,2,3)] assms(4,5) by blast

theorem applyDiff_reverseDiff_witness:
  "soundRef (=)
   \<and> noInheritedNames grownBefore \<and> noInheritedNames grownAfter
   \<and> createDiff (=) grownBefore grownAfter = Some grownDelta
   \<and> reversible grownDelta
   \<and> applyDiff grownAfter (reverseDiff grownDelta) = grownBefore"
proof -
  have n: "noInheritedNames grownBefore" "noInheritedNames grownAfter"
    by code_simp+
  have d: "createDiff (=) grownBefore grownAfter = Some grownDelta"
    by code_simp
  have r: "reversible grownDelta"
    by code_simp
  show ?thesis
    using applyDiff_reverseDiff [OF soundRef_eq n d r] soundRef_eq n d r by simp
qed

text \<open>
  The claim as the specification states it fails, in two ways. Reversing the deletion of
  the property \<^verbatim>\<open>a\<close> of \<^verbatim>\<open>{a: 1}\<close> gives \<^verbatim>\<open>{a: undefined}\<close>. Reversing the replacement of
  an array element leaves the element as it is: from \<^verbatim>\<open>[2]\<close>, the reversed diff of \<^verbatim>\<open>[1]\<close>
  and \<^verbatim>\<open>[2]\<close> gives \<^verbatim>\<open>[2]\<close>.
\<close>

theorem reverse_loses_deleted_and_replaced:
  "createDiff (=) (VObj (fmap_of_list [(''a'', VNum 1)])) (VObj (fmap_of_list []))
     = Some (ObjectDiff (fmap_of_list []) (fmap_of_list []) [''a''])
   \<and> applyDiff (VObj (fmap_of_list []))
        (reverseDiff (ObjectDiff (fmap_of_list []) (fmap_of_list []) [''a'']))
     = VObj (fmap_of_list [(''a'', VUndefined)])
   \<and> VObj (fmap_of_list [(''a'', VUndefined)]) \<noteq> VObj (fmap_of_list [(''a'', VNum 1)])
   \<and> createDiff (=) (VArr [VNum 1]) (VArr [VNum 2])
     = Some (ArrayDiff [\<lparr>item_index = 0, item_value = VNum 2,
                          item_added = False, item_removed = False\<rparr>])
   \<and> applyDiff (VArr [VNum 2])
        (reverseDiff (ArrayDiff [\<lparr>item_index = 0, item_value = VNum 2,
                                   item_added = False, item_removed = False\<rparr>]))
     = VArr [VNum 2]
   \<and> VArr [VNum 2] \<noteq> VArr [VNum 1]"
  by code_simp

text \<open>
  Why the objects are to have no inherited names. \<^verbatim>\<open>'toString' in {}\<close> is true, so the
  diff of \<^verbatim>\<open>{}\<close> and \<^verbatim>\<open>{a: 1, toString: 2}\<close> does not list \<^verbatim>\<open>toString\<close> as added, and
  neither round trip holds. And the diff of \<^verbatim>\<open>{toString: 1}\<close> and \<^verbatim>\<open>{}\<close> does not delete
  the property: it changes it to the inherited function.
\<close>

lemma inherited_name_not_added:
  "createDiff (=) namedBefore namedAfter = Some namedDelta
   \<and> replacesDefined namedDelta \<and> reversible namedDelta
   \<and> applyDiff namedBefore namedDelta = VObj (fmap_of_list [(''a'', VNum 1)])
   \<and> applyDiff namedBefore namedDelta \<noteq> namedAfter
   \<and> applyDiff namedAfter (reverseDiff namedDelta) = VObj (fmap_of_list [(''toString'', VNum 2)])
   \<and> applyDiff namedAfter (reverseDiff namedDelta) \<noteq> namedBefore"
  by code_simp

lemma inherited_name_not_deleted:
  "createDiff (=) (VObj (fmap_of_list [(''toString'', VNum 1)])) (VObj (fmap_of_list []))
     = Some (ObjectDiff (fmap_of_list [(''toString'', ValueDiff (VNum 1) (VFunction ''toString''))])
               (fmap_of_list []) [])
   \<and> applyDiff (VObj (fmap_of_list [(''toString'', VNum 1)]))
        (ObjectDiff (fmap_of_list [(''toString'', ValueDiff (VNum 1) (VFunction ''toString''))])
               (fmap_of_list []) [])
     = VObj (fmap_of_list [(''toString'', VFunction ''toString'')])"
  by code_simp

section \<open>Properties of the history stack\<close>

lemmas eval_defs = mkAtom_def emptyStore_def threeAtoms_def threeWrites_def registerHistoryAtom_def
  unregisterHistoryAtom_def getAtomById_def atomWrite_def pushToHistory_def entryData_def newEntry_def
  effectiveLimit_def DEFAULT_HISTORY_LIMIT_def startGroupOperation_def endGroupOperation_def
  groupOperations_def undo_def redo_def undoValue_def redoValue_def canUndo_def canRedo_def
  createDiff.simps Let_def

subsection \<open>A push outside a group\<close>

lemma push_step:
  assumes "currentGroupOperationAtom s = None"
      and "entryData sameRef prev next opts = Some ed"
  shows "pushToHistory sameRef now i prev next opts s =
           s\<lparr>historyStackAtom :=
               \<lparr>past = (if int (length (past (historyStackAtom s))) + 1
                              > effectiveLimit (opt_historyLimit opts)
                         then tl (past (historyStackAtom s) @ [newEntry now i ed])
                         else past (historyStackAtom s) @ [newEntry now i ed]),
                future = []\<rparr>\<rparr>"
  using assms by (simp add: pushToHistory_def Let_def)

text \<open>
  One push: the entries kept are the last ones, as many as the limit allows or, when
  \<^verbatim>\<open>past\<close> is already longer than the limit, as many as \<^verbatim>\<open>past\<close> had.
\<close>

lemma push_step_past:
  assumes "currentGroupOperationAtom s = None"
      and "entryData sameRef prev next opts = Some ed"
  shows "past (historyStackAtom (pushToHistory sameRef now i prev next opts s)) =
           drop (length (past (historyStackAtom s) @ [newEntry now i ed])
                   - max (nat (effectiveLimit (opt_historyLimit opts)))
                       (length (past (historyStackAtom s))))
                (past (historyStackAtom s) @ [newEntry now i ed])"
proof -
  let ?p = "past (historyStackAtom s)" and ?L = "effectiveLimit (opt_historyLimit opts)"
  show ?thesis
  proof (cases "int (length ?p) + 1 > ?L")
    case True
    then have "length ?p + 1 - max (nat ?L) (length ?p) = 1" by linarith
    moreover have "tl ys = drop 1 ys" for ys :: "HistoryEntry list"
      by (cases ys) simp_all
    ultimately have "tl (?p @ [newEntry now i ed])
        = drop (length (?p @ [newEntry now i ed]) - max (nat ?L) (length ?p))
            (?p @ [newEntry now i ed])"
      by simp
    then show ?thesis
      using True assms(1,2) by (simp only: push_step) simp
  next
    case False
    then have "length ?p + 1 - max (nat ?L) (length ?p) = 0" by linarith
    then have "?p @ [newEntry now i ed]
        = drop (length (?p @ [newEntry now i ed]) - max (nat ?L) (length ?p))
            (?p @ [newEntry now i ed])"
      by simp
    then show ?thesis
      using False assms(1,2) by (simp only: push_step) simp
  qed
qed

lemma push_step_room:
  assumes "currentGroupOperationAtom s = None"
      and "entryData sameRef prev next opts = Some ed"
  shows "max (nat (effectiveLimit (opt_historyLimit opts)))
           (length (past (historyStackAtom (pushToHistory sameRef now i prev next opts s))))
       = max (nat (effectiveLimit (opt_historyLimit opts))) (length (past (historyStackAtom s)))"
proof -
  let ?n = "length (past (historyStackAtom s))"
  let ?L = "nat (effectiveLimit (opt_historyLimit opts))"
  have len: "length (past (historyStackAtom (pushToHistory sameRef now i prev next opts s)))
      = ?n + 1 - (?n + 1 - max ?L ?n)"
    unfolding push_step_past [OF assms] length_drop by simp
  show ?thesis
    unfolding len by (auto simp: max_def)
qed

lemma push_step_group:
  assumes "currentGroupOperationAtom s = None"
  shows "currentGroupOperationAtom (pushToHistory sameRef now i prev next opts s) = None"
  using assms by (simp add: pushToHistory_def Let_def split: option.splits)

lemma drop_drop_append:
  fixes L :: nat
  shows "drop (length (drop (length xs - L) xs @ es) - L) (drop (length xs - L) xs @ es)
       = drop (length (xs @ es) - L) (xs @ es)"
proof (cases "length xs \<le> L")
  case True
  then show ?thesis by simp
next
  case False
  then have "length xs - (length xs - L) = L" by simp
  then have a: "length (drop (length xs - L) xs @ es) - L = length es" by simp
  have b: "length (xs @ es) - L = length es + (length xs - L)" using False by simp
  have c: "drop (length xs - L) xs @ es = drop (length xs - L) (xs @ es)" by simp
  show ?thesis unfolding a b unfolding c drop_drop ..
qed

lemma entryData_counting:
  "entryData (=) (VNum k) (VNum (k + 1)) limit50
     = Some (Typed (ValueDiff (VNum k) (VNum (k + 1))), VUndefined)"
  by (simp add: entryData_def limit50_def createDiff.simps)

lemma overLimitStore_past:
  "historyStackAtom overLimitStore =
     \<lparr>past = [newEntry 1 ''a'' (Typed (ValueDiff (VNum 0) (VNum 1)), VUndefined),
              newEntry 2 ''b'' (Typed (ValueDiff (VNum 0) (VNum 1)), VUndefined),
              newEntry 3 ''c'' (Typed (ValueDiff (VNum 0) (VNum 1)), VUndefined)],
      future = []\<rparr>"
  "currentGroupOperationAtom overLimitStore = None"
  by (simp_all add: overLimitStore_def eval_defs)

text \<open>
  Claim C6 (eviction on push). Every push outside a group that records an entry appends
  it to \<^verbatim>\<open>past\<close> and, if \<^verbatim>\<open>past\<close> is then longer than the limit, removes the oldest
  entry, the one at the head. So a run of such pushes, from any state, leaves the newest
  entries in their order, and the entries dropped are the oldest ones: it keeps as many
  as the limit allows or, where \<^verbatim>\<open>past\<close> was longer than the limit before the run, as many
  as \<^verbatim>\<open>past\<close> had. With the limit 50 (also the default), 51 pushes on an empty history
  leave 50 entries, without the first one. With the limit 2, the three entries that a
  group of writes to \<^verbatim>\<open>a\<close>, \<^verbatim>\<open>b\<close> and \<^verbatim>\<open>c\<close> has left lose the entry of \<^verbatim>\<open>a\<close> to the next
  push, and remain three.
\<close>

theorem push_evicts_oldest:
  assumes "currentGroupOperationAtom s = None"
      and "\<forall>(now, prevValue, nextValue) \<in> set calls.
             entryData sameRef prevValue nextValue options \<noteq> None"
  shows "past (historyStackAtom
           (fold (\<lambda>(now, prevValue, nextValue).
                    pushToHistory sameRef now i prevValue nextValue options) calls s))
         = (let entries = past (historyStackAtom s) @
                  map (\<lambda>(now, prevValue, nextValue).
                        newEntry now i (the (entryData sameRef prevValue nextValue options))) calls;
                room = max (nat (effectiveLimit (opt_historyLimit options)))
                         (length (past (historyStackAtom s)))
            in drop (length entries - room) entries)"
  using assms
proof (induction calls arbitrary: s)
  case Nil
  then show ?case by simp
next
  case (Cons c calls)
  obtain now prev "next" where c: "c = (now, prev, next)" by (cases c)
  let ?M = "max (nat (effectiveLimit (opt_historyLimit options))) (length (past (historyStackAtom s)))"
  let ?s' = "pushToHistory sameRef now i prev next options s"
  from Cons.prems(2) c obtain ed where ed: "entryData sameRef prev next options = Some ed"
    by auto
  have p': "past (historyStackAtom ?s') =
      drop (length (past (historyStackAtom s) @ [newEntry now i ed]) - ?M)
        (past (historyStackAtom s) @ [newEntry now i ed])"
    using push_step_past [OF Cons.prems(1) ed] .
  have g': "currentGroupOperationAtom ?s' = None"
    using push_step_group [OF Cons.prems(1)] .
  have room': "max (nat (effectiveLimit (opt_historyLimit options)))
      (length (past (historyStackAtom ?s'))) = ?M"
    using push_step_room [OF Cons.prems(1) ed] .
  have rest: "\<forall>(now, prevValue, nextValue) \<in> set calls.
      entryData sameRef prevValue nextValue options \<noteq> None"
    using Cons.prems(2) by simp
  let ?es = "map (\<lambda>(now, prevValue, nextValue).
                  newEntry now i (the (entryData sameRef prevValue nextValue options))) calls"
  let ?xs = "past (historyStackAtom s) @ [newEntry now i ed]"
  have "past (historyStackAtom
           (fold (\<lambda>(now, prevValue, nextValue).
                    pushToHistory sameRef now i prevValue nextValue options) (c # calls) s))
      = past (historyStackAtom
           (fold (\<lambda>(now, prevValue, nextValue).
                    pushToHistory sameRef now i prevValue nextValue options) calls ?s'))"
    by (simp add: c)
  also have "\<dots> = drop (length (past (historyStackAtom ?s') @ ?es) - ?M)
                     (past (historyStackAtom ?s') @ ?es)"
    using Cons.IH [OF g' rest] by (simp only: Let_def room')
  also have "\<dots> = drop (length (?xs @ ?es) - ?M) (?xs @ ?es)"
    unfolding p' by (rule drop_drop_append)
  also have "?xs @ ?es = past (historyStackAtom s) @
      map (\<lambda>(now, prevValue, nextValue).
            newEntry now i (the (entryData sameRef prevValue nextValue options))) (c # calls)"
    by (simp add: c ed)
  finally show ?case
    by (simp only: Let_def)
qed

theorem push_evicts_oldest_witness:
  "currentGroupOperationAtom emptyStore = None
   \<and> list_all (\<lambda>(now, prevValue, nextValue). entryData (=) prevValue nextValue limit50 \<noteq> None)
        (countingCalls 51)
   \<and> effectiveLimit (opt_historyLimit limit50) = 50
   \<and> effectiveLimit None = 50
   \<and> length (past (historyStackAtom
        (fold (\<lambda>(now, prevValue, nextValue). pushToHistory (=) now ''a'' prevValue nextValue limit50)
           (countingCalls 51) emptyStore))) = 50
   \<and> newEntry 0 ''a'' (Typed (ValueDiff (VNum 0) (VNum 1)), VUndefined)
        \<notin> set (past (historyStackAtom
        (fold (\<lambda>(now, prevValue, nextValue). pushToHistory (=) now ''a'' prevValue nextValue limit50)
           (countingCalls 51) emptyStore)))
   \<and> currentGroupOperationAtom overLimitStore = None
   \<and> list_all (\<lambda>(now, prevValue, nextValue). entryData (=) prevValue nextValue limit2 \<noteq> None)
        [(4, VNum 1, VNum 2)]
   \<and> effectiveLimit (opt_historyLimit limit2) = 2
   \<and> past (historyStackAtom overLimitStore)
       = [newEntry 1 ''a'' (Typed (ValueDiff (VNum 0) (VNum 1)), VUndefined),
          newEntry 2 ''b'' (Typed (ValueDiff (VNum 0) (VNum 1)), VUndefined),
          newEntry 3 ''c'' (Typed (ValueDiff (VNum 0) (VNum 1)), VUndefined)]
   \<and> past (historyStackAtom
        (fold (\<lambda>(now, prevValue, nextValue). pushToHistory (=) now ''a'' prevValue nextValue limit2)
           [(4, VNum 1, VNum 2)] overLimitStore))
       = [newEntry 2 ''b'' (Typed (ValueDiff (VNum 0) (VNum 1)), VUndefined),
          newEntry 3 ''c'' (Typed (ValueDiff (VNum 0) (VNum 1)), VUndefined),
          newEntry 4 ''a'' (Typed (ValueDiff (VNum 1) (VNum 2)), VUndefined)]"
proof -
  have e2: "entryData (=) (VNum 1) (VNum 2) limit2
      = Some (Typed (ValueDiff (VNum 1) (VNum 2)), VUndefined)"
    by (simp add: entryData_def limit2_def createDiff.simps)
  then have r2: "\<forall>(now, prevValue, nextValue) \<in> set [(4, VNum 1, VNum 2)].
      entryData (=) prevValue nextValue limit2 \<noteq> None"
    by simp
  have lim2: "effectiveLimit (opt_historyLimit limit2) = 2"
    by (simp add: limit2_def effectiveLimit_def)
  have over: "past (historyStackAtom
        (fold (\<lambda>(now, prevValue, nextValue). pushToHistory (=) now ''a'' prevValue nextValue limit2)
           [(4, VNum 1, VNum 2)] overLimitStore))
       = [newEntry 2 ''b'' (Typed (ValueDiff (VNum 0) (VNum 1)), VUndefined),
          newEntry 3 ''c'' (Typed (ValueDiff (VNum 0) (VNum 1)), VUndefined),
          newEntry 4 ''a'' (Typed (ValueDiff (VNum 1) (VNum 2)), VUndefined)]"
    unfolding push_evicts_oldest [OF overLimitStore_past(2) r2, of "''a''"]
    by (simp add: overLimitStore_past lim2 e2)
  have g: "currentGroupOperationAtom emptyStore = None"
    by (simp add: emptyStore_def)
  have r: "\<forall>(now, prevValue, nextValue) \<in> set (countingCalls 51).
      entryData (=) prevValue nextValue limit50 \<noteq> None"
    by (auto simp: countingCalls_def entryData_counting)
  have lim: "nat (effectiveLimit (opt_historyLimit limit50)) = 50"
    by (simp add: limit50_def effectiveLimit_def)
  have p0: "past (historyStackAtom emptyStore) = []"
    by (simp add: emptyStore_def)
  have es: "map (\<lambda>(now, prevValue, nextValue).
                  newEntry now ''a'' (the (entryData (=) prevValue nextValue limit50)))
              (countingCalls 51)
          = map (\<lambda>k. newEntry (int k) ''a''
                       (Typed (ValueDiff (VNum (int k)) (VNum (int k + 1))), VUndefined)) [0..<51]"
    by (simp add: countingCalls_def entryData_counting)
  have p: "past (historyStackAtom
        (fold (\<lambda>(now, prevValue, nextValue). pushToHistory (=) now ''a'' prevValue nextValue limit50)
           (countingCalls 51) emptyStore))
      = map (\<lambda>k. newEntry (int k) ''a''
                   (Typed (ValueDiff (VNum (int k)) (VNum (int k + 1))), VUndefined)) [1..<51]"
    using push_evicts_oldest [OF g r, of "''a''"]
    by (simp only: Let_def p0 es lim append_Nil length_map length_upt list.size max_0R)
       (simp add: drop_map)
  have r': "list_all (\<lambda>(now, prevValue, nextValue). entryData (=) prevValue nextValue limit50 \<noteq> None)
      (countingCalls 51)"
    using r by (simp only: list_all_iff)
  have first: "length (past (historyStackAtom
        (fold (\<lambda>(now, prevValue, nextValue). pushToHistory (=) now ''a'' prevValue nextValue limit50)
           (countingCalls 51) emptyStore))) = 50
   \<and> newEntry 0 ''a'' (Typed (ValueDiff (VNum 0) (VNum 1)), VUndefined)
        \<notin> set (past (historyStackAtom
        (fold (\<lambda>(now, prevValue, nextValue). pushToHistory (=) now ''a'' prevValue nextValue limit50)
           (countingCalls 51) emptyStore)))"
    unfolding p by (auto simp: newEntry_def)
  have lims: "effectiveLimit (opt_historyLimit limit50) = 50" "effectiveLimit None = 50"
    by (simp_all add: effectiveLimit_def DEFAULT_HISTORY_LIMIT_def limit50_def)
  have r2': "list_all (\<lambda>(now, prevValue, nextValue). entryData (=) prevValue nextValue limit2 \<noteq> None)
      [(4, VNum 1, VNum 2)]"
    using e2 by simp
  show ?thesis
    using g r' first lims overLimitStore_past r2' lim2 over by simp
qed

text \<open>
  Claim C7 (future clearing). Every push outside a group that records an entry leaves
  \<^verbatim>\<open>future\<close> empty, so that \<^verbatim>\<open>canRedo\<close> is false after it: in particular after an undo
  followed by a new change.
\<close>

theorem push_clears_future:
  assumes "currentGroupOperationAtom s = None"
      and "entryData sameRef prevValue nextValue options = Some ed"
  shows "future (historyStackAtom (pushToHistory sameRef now i prevValue nextValue options s)) = []
         \<and> \<not> canRedo (pushToHistory sameRef now i prevValue nextValue options s)"
  using assms by (simp add: push_step canRedo_def)

theorem push_clears_future_witness:
  "currentGroupOperationAtom
      (storeOf (undo (=) 2
         (storeOf (atomWrite (=) 1 (mkAtom ''a'' 0 None) (VNum 1) (threeAtoms None))))) = None
   \<and> entryData (=) (VNum 0) (VNum 5) limit50 = Some (Typed (ValueDiff (VNum 0) (VNum 5)), VUndefined)
   \<and> canRedo (storeOf (undo (=) 2
         (storeOf (atomWrite (=) 1 (mkAtom ''a'' 0 None) (VNum 1) (threeAtoms None)))))
   \<and> future (historyStackAtom (pushToHistory (=) 3 ''a'' (VNum 0) (VNum 5) limit50
        (storeOf (undo (=) 2
           (storeOf (atomWrite (=) 1 (mkAtom ''a'' 0 None) (VNum 1) (threeAtoms None))))))) = []
   \<and> \<not> canRedo (pushToHistory (=) 3 ''a'' (VNum 0) (VNum 5) limit50
        (storeOf (undo (=) 2
           (storeOf (atomWrite (=) 1 (mkAtom ''a'' 0 None) (VNum 1) (threeAtoms None))))))"
proof -
  let ?s = "storeOf (undo (=) 2
    (storeOf (atomWrite (=) 1 (mkAtom ''a'' 0 None) (VNum 1) (threeAtoms None))))"
  have g: "currentGroupOperationAtom ?s = None"
    by (simp add: eval_defs)
  have e: "entryData (=) (VNum 0) (VNum 5) limit50
      = Some (Typed (ValueDiff (VNum 0) (VNum 5)), VUndefined)"
    by (simp add: entryData_def limit50_def createDiff.simps)
  have c: "canRedo ?s"
    by (simp add: eval_defs)
  show ?thesis
    using push_clears_future [OF g e, of 3 "''a''"] g e c by simp
qed

subsection \<open>Groups\<close>

text \<open>
  Inside a group a push goes to the buffer and leaves the stacks alone; the end of a
  group with entries appends them all to \<^verbatim>\<open>past\<close>, each an entry of its own, and clears
  \<^verbatim>\<open>future\<close>.
\<close>

lemma push_in_group:
  assumes "currentGroupOperationAtom s = Some groupEntries"
      and "entryData sameRef prev next opts = Some ed"
  shows "pushToHistory sameRef now i prev next opts s
           = s\<lparr>currentGroupOperationAtom := Some (groupEntries @ [newEntry now i ed])\<rparr>"
  using assms by (simp add: pushToHistory_def Let_def)

lemma endGroupOperation_commit:
  assumes "currentGroupOperationAtom s = Some groupEntries" and "groupEntries \<noteq> []"
  shows "historyStackAtom (endGroupOperation s)
           = \<lparr>past = past (historyStackAtom s) @ groupEntries, future = []\<rparr>"
    and "currentGroupOperationAtom (endGroupOperation s) = None"
  using assms by (simp_all add: endGroupOperation_def)

text \<open>
  Claim C3 (group atomicity). The code does not make one undo step of a group:
  \<^verbatim>\<open>endGroupOperation\<close> appends the entries of the group to \<^verbatim>\<open>past\<close> one by one. After a
  group of three writes, to the atoms \<^verbatim>\<open>a\<close>, \<^verbatim>\<open>b\<close> and \<^verbatim>\<open>c\<close>, \<^verbatim>\<open>past\<close> holds three
  entries, and one undo takes one of them and restores \<^verbatim>\<open>c\<close> only. Neither call throws.
\<close>

theorem group_commit_not_atomic:
  "\<not> throws (groupOperations (threeWrites None) (threeAtoms None))
   \<and> \<not> throws (undo (=) 4 (storeOf (groupOperations (threeWrites None) (threeAtoms None))))
   \<and> length (past (historyStackAtom
        (storeOf (groupOperations (threeWrites None) (threeAtoms None))))) = 3
   \<and> length (past (historyStackAtom
        (storeOf (undo (=) 4 (storeOf (groupOperations (threeWrites None) (threeAtoms None))))))) = 2
   \<and> canUndo (storeOf (undo (=) 4 (storeOf (groupOperations (threeWrites None) (threeAtoms None)))))
   \<and> map (baseValues (storeOf (groupOperations (threeWrites None) (threeAtoms None)))) [0, 1, 2]
       = [VNum 1, VNum 1, VNum 1]
   \<and> map (baseValues
        (storeOf (undo (=) 4 (storeOf (groupOperations (threeWrites None) (threeAtoms None))))))
        [0, 1, 2]
       = [VNum 1, VNum 1, VNum 0]"
  by (simp add: eval_defs)

text \<open>
  Claim C5 (eviction and future clearing when a group ends). \<^verbatim>\<open>endGroupOperation\<close> clears
  \<^verbatim>\<open>future\<close> but evicts nothing: with the limit 2, a group of three writes leaves three
  entries in \<^verbatim>\<open>past\<close>, where the same three writes outside a group leave two.
\<close>

theorem group_commit_exceeds_limit:
  "effectiveLimit (historyLimit (mkAtom ''a'' 0 (Some 2))) = 2
   \<and> \<not> throws (groupOperations (threeWrites (Some 2)) (threeAtoms (Some 2)))
   \<and> length (past (historyStackAtom
        (storeOf (groupOperations (threeWrites (Some 2)) (threeAtoms (Some 2)))))) = 3
   \<and> future (historyStackAtom
        (storeOf (groupOperations (threeWrites (Some 2)) (threeAtoms (Some 2))))) = []
   \<and> length (past (historyStackAtom (storeOf (threeWrites (Some 2) (threeAtoms (Some 2)))))) = 2"
  by (simp add: eval_defs)

subsection \<open>Undo and redo\<close>

text \<open>
  Claim C4 (undo of an entry whose atom is not registered), as the code has it. When the
  last entry of \<^verbatim>\<open>past\<close> names an id that the registry does not hold, \<^verbatim>\<open>undo\<close> returns the
  current stack: nothing is thrown, no value is written, and the entry is not dropped,
  it stays the last entry of \<^verbatim>\<open>past\<close>. The store is unchanged.
\<close>

theorem undo_unresolved_keeps_entry:
  assumes "past (historyStackAtom s) \<noteq> []"
      and "getAtomById s (entry_id (last (past (historyStackAtom s)))) = None"
  shows "undo sameRef now s = Returns s"
  using assms by (simp add: undo_def Let_def)

theorem undo_unresolved_keeps_entry_witness:
  "past (historyStackAtom orphanStore) \<noteq> []
   \<and> getAtomById orphanStore (entry_id (last (past (historyStackAtom orphanStore)))) = None
   \<and> undo (=) 2 orphanStore = Returns orphanStore"
proof -
  have p: "past (historyStackAtom orphanStore) \<noteq> []"
    by (simp add: orphanStore_def)
  have r: "getAtomById orphanStore (entry_id (last (past (historyStackAtom orphanStore)))) = None"
    by (simp add: orphanStore_def emptyStore_def getAtomById_def)
  show ?thesis
    using undo_unresolved_keeps_entry [OF p r, of "(=)" 2] p r by simp
qed

text \<open>
  The claim as the specification states it fails: after the undo the entry is still in
  \<^verbatim>\<open>past\<close>, and the two stacks together are not shorter by one.
\<close>

theorem undo_unresolved_not_dropped:
  "getAtomById orphanStore (entry_id (last (past (historyStackAtom orphanStore)))) = None
   \<and> past (historyStackAtom (storeOf (undo (=) 2 orphanStore))) = [orphanEntry]
   \<and> length (past (historyStackAtom (storeOf (undo (=) 2 orphanStore))))
       + length (future (historyStackAtom (storeOf (undo (=) 2 orphanStore)))) + 1
     \<noteq> length (past (historyStackAtom orphanStore)) + length (future (historyStackAtom orphanStore))"
  by (simp add: orphanStore_def emptyStore_def getAtomById_def undo_def)

text \<open>\<^verbatim>\<open>redo\<close> has the same guard, on the last entry of \<^verbatim>\<open>future\<close>.\<close>

lemma redo_unresolved_keeps_entry:
  assumes "future (historyStackAtom s) \<noteq> []"
      and "getAtomById s (entry_id (last (future (historyStackAtom s)))) = None"
  shows "redo sameRef now s = Returns s"
  using assms by (simp add: redo_def Let_def)

text \<open>
  While the flag is set, a write records nothing, whether it returns or throws: the
  flag, the group in progress and the stacks are as they were.
\<close>

lemma atomWrite_flag_set:
  assumes "isHistoryOperationInProgressAtom s"
  shows "isHistoryOperationInProgressAtom (storeOf (atomWrite sameRef now a v s))
       \<and> currentGroupOperationAtom (storeOf (atomWrite sameRef now a v s)) = currentGroupOperationAtom s
       \<and> historyStackAtom (storeOf (atomWrite sameRef now a v s)) = historyStackAtom s"
  using assms by (simp add: atomWrite_def Let_def split: option.splits)

lemma storeOf_tryFinally: "storeOf (tryFinally r f) = f (storeOf r)"
  by (cases r) simp_all

lemma throws_tryFinally: "throws (tryFinally r f) = throws r"
  by (cases r) simp_all

lemma andThen_cases:
  obtains (thrown) s' where "r = Throws s'" "andThen r f = Throws s'"
  | (returned) s' where "r = Returns s'" "andThen r f = f s'"
  by (cases r) simp_all

text \<open>
  The restoring write of \<^verbatim>\<open>undo\<close> and \<^verbatim>\<open>redo\<close> throws when \<^verbatim>\<open>shouldTrack\<close> does; then the
  call throws, and the stacks are not updated.
\<close>

lemma undo_throws:
  assumes "past (historyStackAtom s) \<noteq> []"
      and "getAtomById s (entry_id (last (past (historyStackAtom s)))) = Some a"
      and "undoValue (last (past (historyStackAtom s))) (baseValues s (baseAtom a)) = Some v"
      and "shouldTrack a = Some f" and "f (baseValues s (baseAtom a)) v = None"
  shows "undo sameRef now s = Throws (s\<lparr>isHistoryOperationInProgressAtom := False\<rparr>)"
  using assms by (simp add: undo_def atomWrite_def Let_def)

lemma redo_throws:
  assumes "future (historyStackAtom s) \<noteq> []"
      and "getAtomById s (entry_id (last (future (historyStackAtom s)))) = Some a"
      and "redoValue (last (future (historyStackAtom s))) (baseValues s (baseAtom a)) = Some v"
      and "shouldTrack a = Some f" and "f (baseValues s (baseAtom a)) v = None"
  shows "redo sameRef now s = Throws (s\<lparr>isHistoryOperationInProgressAtom := False\<rparr>)"
  using assms by (simp add: redo_def atomWrite_def Let_def)

text \<open>
  Claim C8 (the suppression flag). If \<^verbatim>\<open>isHistoryOperationInProgressAtom\<close> is false
  before \<^verbatim>\<open>undo\<close> or \<^verbatim>\<open>redo\<close>, it is false after it, on every exit, in the store that a
  return or an exception leaves: the empty stack, the atom that is not registered, the
  value that cannot be restored, the restored value, and the restoring write that throws.
  The flag is set while the restoring write runs, so the write records nothing: the
  group in progress, if any, is as it was.
\<close>

theorem suppression_flag_cleared:
  assumes "\<not> isHistoryOperationInProgressAtom s"
  shows "\<not> isHistoryOperationInProgressAtom (storeOf (undo sameRef now s))
       \<and> \<not> isHistoryOperationInProgressAtom (storeOf (redo sameRef now s))
       \<and> currentGroupOperationAtom (storeOf (undo sameRef now s)) = currentGroupOperationAtom s
       \<and> currentGroupOperationAtom (storeOf (redo sameRef now s)) = currentGroupOperationAtom s"
proof -
  have w: "currentGroupOperationAtom (storeOf (andThen (atomWrite sameRef now a v
             (s\<lparr>isHistoryOperationInProgressAtom := True\<rparr>)) (\<lambda>s'. Returns (s'\<lparr>historyStackAtom := h\<rparr>))))
         = currentGroupOperationAtom s" for a v h
    using atomWrite_flag_set [of "s\<lparr>isHistoryOperationInProgressAtom := True\<rparr>" sameRef now a v]
    by (cases "atomWrite sameRef now a v (s\<lparr>isHistoryOperationInProgressAtom := True\<rparr>)") simp_all
  show ?thesis
    using assms
    by (simp add: undo_def redo_def Let_def storeOf_tryFinally w split: option.splits)
qed

theorem suppression_flag_cleared_witness:
  "\<not> isHistoryOperationInProgressAtom throwingStore
   \<and> throws (undo (=) 2 throwingStore)
   \<and> throws (redo (=) 2 throwingStore)
   \<and> \<not> isHistoryOperationInProgressAtom (storeOf (undo (=) 2 throwingStore))
   \<and> \<not> isHistoryOperationInProgressAtom (storeOf (redo (=) 2 throwingStore))"
proof -
  have f: "\<not> isHistoryOperationInProgressAtom throwingStore"
    by (simp add: throwingStore_def eval_defs)
  have t: "throws (undo (=) 2 throwingStore)" "throws (redo (=) 2 throwingStore)"
    by (simp_all add: throwingStore_def throwingAtom_def throwingEntry_def eval_defs)
  show ?thesis
    using suppression_flag_cleared [OF f, of "(=)" 2] f t by simp
qed

text \<open>
  The other exits of \<^verbatim>\<open>undo\<close> and \<^verbatim>\<open>redo\<close> on which a value is not restored: the entry
  whose value is not a diff. The calls return, with the flag false.
\<close>

lemma unrestorable_entry_returns:
  "undoValue opaqueEntry (VNum 0) = None
   \<and> redoValue opaqueEntry (VNum 0) = None
   \<and> undo (=) 2 opaqueStore = Returns opaqueStore
   \<and> redo (=) 2 opaqueStore = Returns opaqueStore"
  by (simp add: opaqueStore_def opaqueEntry_def eval_defs)

end
